theory Spec2Isabelle
  imports Complex_Main "HOL-Library.Log_Nat"
begin

section \<open>Conserved-probe search of \<open>probe_creator.py\<close>\<close>

text \<open>
  The development embeds the core of class \<open>Probes\<close>: the identity profile computed from
  the position-specific score matrix, the sliding-window generator \<open>window\<close>, the search
  for passing windows in \<open>probefinder\<close>, the choice of a location in \<open>probe_location\<close>
  and the extraction of the probe from every allele in \<open>probes\<close>.

  Modelling conventions.
  \<^item> Every exception of the source is a value of type \<open>error\<close>; a method that may raise
    returns \<open>error + 'a\<close> with \<open>Inl\<close> for the exception.
  \<^item> A Python float is the rational number that it denotes. Every arithmetic operation
    on floats and every conversion to a float rounds the exact result to the nearest
    double (\<open>fl\<close>); \<open>'{:.2f}'.format\<close> gives the decimal with two digits that is nearest
    to the exact value of the float.
  \<^item> \<open>numpy.mean\<close> is a parameter of the model: the order in which the library adds the
    values is not part of this program.
  \<^item> The objects of \<open>accessoryFunctions\<close> (\<open>MetadataObject\<close>, \<open>GenObject\<close>) are records;
    an attribute that the source may leave unassigned is an \<open>option\<close> field.
  \<^item> The location string \<open>'{}:{}'.format(n, n + i)\<close>, later split at the colon and read
    back with \<open>int\<close>, is the pair of the two integers.
\<close>

subsection \<open>Exceptions\<close>

datatype error =
    RuntimeError        \<comment> \<open>a \<open>StopIteration\<close> that leaves a generator body (PEP 479)\<close>
  | ValueError          \<comment> \<open>\<open>min\<close> or \<open>max\<close> of an empty sequence, a failed \<open>AlignIO.read\<close>\<close>
  | KeyError            \<comment> \<open>a letter that is no key of a score-matrix line\<close>
  | ZeroDivisionError   \<comment> \<open>a column without any counted symbol\<close>
  | AssertionError      \<comment> \<open>the \<open>assert\<close> after padding\<close>
  | AttributeError      \<comment> \<open>use of an attribute that was never assigned\<close>

subsection \<open>Slices\<close>

text \<open>
  \<open>s[a:b]\<close> for integers \<open>a\<close> and \<open>b\<close>: a negative index counts from the end, every
  index is clamped to the length of the sequence, and an empty range gives the empty
  sequence. No slice raises.
\<close>

definition slice_index :: "nat \<Rightarrow> int \<Rightarrow> nat" where
  "slice_index len i =
     (if i < 0 then nat (max 0 (int len + i)) else min len (nat i))"

definition py_slice :: "'a list \<Rightarrow> int \<Rightarrow> int \<Rightarrow> 'a list" where
  "py_slice s a b =
     (let lo = slice_index (length s) a; hi = slice_index (length s) b
      in take (hi - lo) (drop lo s))"

subsection \<open>Floats\<close>

text \<open>
  \<open>round_half_even\<close> is the integer nearest to a rational, the exact half going to the even
  neighbour. \<open>exponent x\<close> is the integer \<open>e\<close> with \<open>2\<^sup>e \<le> x < 2\<^sup>e\<^sup>+\<^sup>1\<close> for positive \<open>x\<close>, found
  from the bit lengths of numerator and denominator. \<open>fl x\<close> is the double nearest to \<open>x\<close>:
  a multiple of \<open>2\<^sup>e\<^sup>-\<^sup>5\<^sup>2\<close> with a significand of 53 bits, ties to even. The range of the
  exponent is not limited; no value of this program comes near the limits of a double.
\<close>

definition round_half_even :: "rat \<Rightarrow> int" where
  "round_half_even x =
     (let f = \<lfloor>x\<rfloor>; d = x - of_int f
      in if d < 1 / 2 then f
         else if 1 / 2 < d then f + 1
         else if even f then f else f + 1)"

definition exponent :: "rat \<Rightarrow> int" where
  "exponent x =
     (let (p, q) = quotient_of x; e = bitlen p - bitlen q
      in if 2 powi e \<le> x then e else e - 1)"

definition fl :: "rat \<Rightarrow> rat" where
  "fl x =
     (if x = 0 then 0
      else let ulp = 2 powi (exponent \<bar>x\<bar> - 52)
           in of_int (round_half_even (x / ulp)) * ulp)"

text \<open>
  \<open>'{:.2f}'.format(y)\<close> is the decimal \<open>format2 y\<close>, and \<open>float('{:.2f}'.format(y))\<close> the double
  nearest to it.
\<close>

definition format2 :: "rat \<Rightarrow> rat" where
  "format2 y = of_int (round_half_even (y * 100)) / 100"

definition float_format2 :: "rat \<Rightarrow> rat" where
  "float_format2 y = fl (format2 y)"

text \<open>
  \<open>float('{:.2f}'.format(numpy.mean(window)))\<close>, with \<open>numpy.mean\<close> as the parameter
  \<open>numpy_mean\<close>. On fewer than eight values \<open>numpy.mean\<close> adds them from the left and
  divides the sum by their number, which is \<open>sequential_mean\<close>; the examples use it.
\<close>

definition rounded_mean :: "(rat list \<Rightarrow> rat) \<Rightarrow> rat list \<Rightarrow> rat" where
  "rounded_mean numpy_mean w = float_format2 (numpy_mean w)"

definition sequential_mean :: "rat list \<Rightarrow> rat" where
  "sequential_mean w = fl (foldl (\<lambda>acc v. fl (acc + v)) 0 w / of_nat (length w))"

subsection \<open>The identity profile\<close>

text \<open>
  A line of the position-specific score matrix is a dictionary from the letters that
  occur in the alignment to their number of occurrences in one column. Every row of the
  alignment weighs 1, so the counts are natural numbers.
  \<^verbatim>\<open>
  for line in metadata.pssm:
      try:
          bases = [line['A'], line['C'], line['G'], line['T'], line['-']]
          metadata.identity.append(float('{:.2f}'.format(max(bases[:4]) / sum(bases) * 100)))
      except KeyError:
          bases = [line['A'], line['C'], line['G'], line['T']]
          metadata.identity.append(float('{:.2f}'.format(max(bases) / sum(bases) * 100)))
  \<close>
  \<open>getitems line ks\<close> builds the list \<open>[line[k] for k in ks]\<close>, raising \<open>KeyError\<close>
  at the first letter that is no key. A division by zero inside the \<open>try\<close> is not
  caught by \<open>except KeyError\<close>. The counts are floats; \<open>max(bases) / sum(bases) * 100\<close>
  is a float division followed by a float multiplication.
\<close>

type_synonym pssm_line = "char \<rightharpoonup> nat"

fun getitems :: "pssm_line \<Rightarrow> char list \<Rightarrow> error + nat list" where
  "getitems line [] = Inr []"
| "getitems line (k # ks) =
     (case line k of
        None \<Rightarrow> Inl KeyError
      | Some v \<Rightarrow>
          (case getitems line ks of
             Inl e \<Rightarrow> Inl e
           | Inr vs \<Rightarrow> Inr (v # vs)))"

definition percent :: "nat \<Rightarrow> nat \<Rightarrow> error + rat" where
  "percent most observed =
     (if observed = 0 then Inl ZeroDivisionError
      else Inr (float_format2 (fl (fl (of_nat most / of_nat observed) * 100))))"

definition column_identity :: "pssm_line \<Rightarrow> error + rat" where
  "column_identity line =
     (case getitems line ''ACGT-'' of
        Inr bases \<Rightarrow> percent (Max (set (take 4 bases))) (sum_list bases)
      | Inl _ \<Rightarrow>
          (case getitems line ''ACGT'' of
             Inr bases \<Rightarrow> percent (Max (set bases)) (sum_list bases)
           | Inl e \<Rightarrow> Inl e))"

fun identity_profile :: "pssm_line list \<Rightarrow> error + rat list" where
  "identity_profile [] = Inr []"
| "identity_profile (line # pssm) =
     (case column_identity line of
        Inl e \<Rightarrow> Inl e
      | Inr v \<Rightarrow>
          (case identity_profile pssm of
             Inl e \<Rightarrow> Inl e
           | Inr vs \<Rightarrow> Inr (v # vs)))"

text \<open>The gap count of a line, 0 when the line has no key \<open>-\<close>.\<close>

definition gap_count :: "pssm_line \<Rightarrow> nat" where
  "gap_count line = (case line (CHR ''-'') of None \<Rightarrow> 0 | Some d \<Rightarrow> d)"

subsection \<open>Reading and padding the alignment\<close>

text \<open>
  \<open>AlignIO.read(file, 'fasta')\<close> raises \<open>ValueError\<close> when the file holds no record and
  when its records differ in length. The rows are the sequences of the records.
  \<^verbatim>\<open>
  try:
      metadata.alignment = AlignIO.read(align, 'fasta')
  except ValueError:
      records = list(SeqIO.parse(align, 'fasta'))
      maxlen = max(len(record.seq) for record in records)
      for record in records:
          if len(record.seq) != maxlen:
              sequence = str(record.seq).ljust(maxlen, '.')
              record.seq = Seq(sequence)
      assert all(len(record.seq) == maxlen for record in records)
      ...
      metadata.alignment = AlignIO.read(metadata.alignmentfile, 'fasta')
  \<close>
\<close>

definition AlignIO_read :: "string list \<Rightarrow> error + string list" where
  "AlignIO_read rows =
     (if rows = [] then Inl ValueError
      else if list_all (\<lambda>r. length r = length (hd rows)) rows then Inr rows
      else Inl ValueError)"

definition ljust :: "string \<Rightarrow> nat \<Rightarrow> char \<Rightarrow> string" where
  "ljust s width fillchar = s @ replicate (width - length s) fillchar"

definition pad_records :: "string list \<Rightarrow> error + string list" where
  "pad_records records =
     (if records = [] then Inl ValueError
      else
        let maxlen = Max (set (map length records));
            padded = map (\<lambda>r. if length r \<noteq> maxlen then ljust r maxlen (CHR ''.'') else r)
                       records
        in if list_all (\<lambda>r. length r = maxlen) padded then Inr padded
           else Inl AssertionError)"

definition read_alignment :: "string list \<Rightarrow> error + string list" where
  "read_alignment rows =
     (case AlignIO_read rows of
        Inr alignment \<Rightarrow> Inr alignment
      | Inl _ \<Rightarrow>
          (case pad_records rows of
             Inl e \<Rightarrow> Inl e
           | Inr padded \<Rightarrow> AlignIO_read padded))"

subsection \<open>The sliding-window generator\<close>

text \<open>
  \<^verbatim>\<open>
  def window(iterable, size):
      i = iter(iterable)
      win = []
      for e in range(0, size):
          win.append(next(i))
      yield win
      for e in i:
          win = win[1:] + [e]
          yield win
  \<close>
  \<open>slide win rest\<close> is the part from the first \<open>yield\<close> on: \<open>win\<close> is the current window and
  \<open>rest\<close> what the iterator still holds.

  When the iterable is shorter than \<open>size\<close>, \<open>next(i)\<close> raises \<open>StopIteration\<close> inside the
  generator body before anything is yielded. What the consumer sees depends on the
  interpreter: with \<open>generator_stop\<close> semantics (the only semantics from Python 3.7 on) the
  exception is turned into \<open>RuntimeError\<close>; before, it ends the generator silently. The
  flag \<open>generator_stop\<close> selects between the two. \<open>range(0, size)\<close> is empty for
  \<open>size \<le> 0\<close>, which is \<open>nat size = 0\<close>.
\<close>

fun slide :: "'a list \<Rightarrow> 'a list \<Rightarrow> 'a list list" where
  "slide win [] = [win]"
| "slide win (e # es) = win # slide (tl win @ [e]) es"

definition window :: "bool \<Rightarrow> 'a list \<Rightarrow> int \<Rightarrow> error + 'a list list" where
  "window generator_stop iterable sz =
     (let k = nat sz in
      if length iterable < k
      then (if generator_stop then Inl RuntimeError else Inr [])
      else Inr (slide (take k iterable) (drop k iterable)))"

text \<open>
  The windows as the specification describes them: \<open>max(0, L - s + 1)\<close> windows, window
  \<open>k\<close> covering the columns \<open>[k, k + s)\<close>.
\<close>

definition spec_windows :: "'a list \<Rightarrow> int \<Rightarrow> 'a list list" where
  "spec_windows profile s =
     map (\<lambda>k. take (nat s) (drop k profile))
       [0 ..< nat (max 0 (int (length profile) - s + 1))]"

subsection \<open>The data of a sample\<close>

text \<open>
  \<open>slidingdata\<close> is the object of one passing window, \<open>windowdata\<close> the object of one window
  size, \<open>metadata\<close> the object of one alignment (gene). The attributes \<open>size\<close>, \<open>max\<close> and
  \<open>min\<close> of the source are the fields \<open>wsize\<close>, \<open>wmax\<close> and \<open>wmin\<close>, the attribute \<open>min\<close> of a
  window is \<open>minimum\<close>. \<open>windowdata.min\<close> is assigned only when a window passes, and
  \<open>sample.location\<close> only when \<open>probe_location\<close> finds a window: both are options.

  \<open>alignedalleles\<close> holds, for every aligned file of the sample, what the alignment
  library derives from it: the consensus and the position-specific score matrix with one
  line per column.
\<close>

record settings =
  min_size :: int
  max_size :: int
  cutoff :: rat

record slidingdata =
  location :: "int \<times> int"
  minimum :: rat
  mean :: rat
  sequence :: string

record windowdata =
  wsize :: int
  wmax :: rat
  wmin :: "rat option"
  sliding :: "slidingdata list"

record metadata =
  consensus :: string
  identity :: "rat list"
  windows :: "windowdata list"

record sample =
  alleleset :: "string set"
  alignedalleles :: "(string \<times> pssm_line list) list"
  gene :: "metadata list"
  sample_location :: "(int \<times> int) option"
  probeallele :: "string set"

subsection \<open>\<open>probefinder\<close>\<close>

text \<open>
  The loop over the windows of one size \<open>i\<close>, with the counter \<open>n\<close> and the flag \<open>passing\<close>:
  \<^verbatim>\<open>
  for window in windows:
      slidingdata = MetadataObject()
      if min(window) > self.cutoff:
          slidingdata.location = '{}:{}'.format(n, n + i)
          slidingdata.min = min(window)
          slidingdata.mean = float('{:.2f}'.format(numpy.mean(window)))
          slidingdata.sequence = str(consensus[n:n+i])
          windowdata.max = slidingdata.mean if slidingdata.mean >= windowdata.max \
              else windowdata.max
          windowdata.min = slidingdata.mean if slidingdata.mean <= windowdata.max \
              else windowdata.min
          windowdata.sliding.append(slidingdata)
          passing = True
      n += 1
  \<close>
  \<open>min\<close> of an empty window raises \<open>ValueError\<close>.
\<close>

fun scan_windows ::
  "(rat list \<Rightarrow> rat) \<Rightarrow> rat \<Rightarrow> string \<Rightarrow> int \<Rightarrow> windowdata \<times> bool \<Rightarrow> int
     \<Rightarrow> rat list list \<Rightarrow> error + windowdata \<times> bool" where
  "scan_windows nm c cons i (windowdata, passing) n [] = Inr (windowdata, passing)"
| "scan_windows nm c cons i (windowdata, passing) n (w # ws) =
     (if w = [] then Inl ValueError
      else if c < Min (set w) then
        let slidingdata = \<lparr>location = (n, n + i), minimum = Min (set w),
                             mean = rounded_mean nm w, sequence = py_slice cons n (n + i)\<rparr>;
            hi = (if wmax windowdata \<le> mean slidingdata then mean slidingdata
                  else wmax windowdata);
            lo = (if mean slidingdata \<le> hi then Some (mean slidingdata)
                  else wmin windowdata)
        in scan_windows nm c cons i
             (windowdata\<lparr>wmax := hi, wmin := lo,
                          sliding := sliding windowdata @ [slidingdata]\<rparr>, True)
             (n + 1) ws
      else scan_windows nm c cons i (windowdata, passing) (n + 1) ws)"

text \<open>
  The loop over the sizes, \<open>reversed(range(self.min, self.max + 1))\<close>:
  \<^verbatim>\<open>
  passing = False
  for i in reversed(range(self.min, self.max + 1)):
      if not passing:
          windowdata = MetadataObject()
          windowdata.size = i
          windowdata.max = 0
          windowdata.sliding = list()
          n = 0
          windows = self.window(metadata.identity, i)
          for window in windows: ...
          metadata.windows.append(windowdata)
  \<close>
\<close>

definition new_windowdata :: "int \<Rightarrow> windowdata" where
  "new_windowdata i = \<lparr>wsize = i, wmax = 0, wmin = None, sliding = []\<rparr>"

fun scan_sizes ::
  "bool \<Rightarrow> (rat list \<Rightarrow> rat) \<Rightarrow> rat \<Rightarrow> rat list \<Rightarrow> string \<Rightarrow> windowdata list \<times> bool
     \<Rightarrow> int list \<Rightarrow> error + windowdata list \<times> bool" where
  "scan_sizes gs nm c ident cons (wds, passing) [] = Inr (wds, passing)"
| "scan_sizes gs nm c ident cons (wds, passing) (i # sizes) =
     (if \<not> passing then
        (case window gs ident i of
           Inl e \<Rightarrow> Inl e
         | Inr ws \<Rightarrow>
             (case scan_windows nm c cons i (new_windowdata i, passing) 0 ws of
                Inl e \<Rightarrow> Inl e
              | Inr (windowdata, passing') \<Rightarrow>
                  scan_sizes gs nm c ident cons (wds @ [windowdata], passing') sizes))
      else scan_sizes gs nm c ident cons (wds, passing) sizes)"

text \<open>
  For the proofs: the object that a passing window at offset \<open>n\<close> gets, the effect of
  recording it (where \<open>windowdata.max\<close> is the larger of its old value and the new mean, the
  condition of the assignment to \<open>windowdata.min\<close> holds), the list of the objects of the
  passing windows among \<open>ws\<close>, and what holds of the entry that the scan of size \<open>i\<close>
  appends to \<open>metadata.windows\<close>.
\<close>

definition new_sliding ::
  "(rat list \<Rightarrow> rat) \<Rightarrow> string \<Rightarrow> int \<Rightarrow> int \<Rightarrow> rat list \<Rightarrow> slidingdata" where
  "new_sliding nm cons i n w =
     \<lparr>location = (n, n + i), minimum = Min (set w), mean = rounded_mean nm w,
      sequence = py_slice cons n (n + i)\<rparr>"

definition record_passing :: "windowdata \<Rightarrow> slidingdata \<Rightarrow> windowdata" where
  "record_passing wd sd =
     wd\<lparr>wmax := max (wmax wd) (mean sd), wmin := Some (mean sd),
        sliding := sliding wd @ [sd]\<rparr>"

fun passing_records ::
  "(rat list \<Rightarrow> rat) \<Rightarrow> rat \<Rightarrow> string \<Rightarrow> int \<Rightarrow> int \<Rightarrow> rat list list
     \<Rightarrow> slidingdata list" where
  "passing_records nm c cons i n [] = []"
| "passing_records nm c cons i n (w # ws) =
     (if c < Min (set w)
      then new_sliding nm cons i n w # passing_records nm c cons i (n + 1) ws
      else passing_records nm c cons i (n + 1) ws)"

definition entry_of ::
  "bool \<Rightarrow> (rat list \<Rightarrow> rat) \<Rightarrow> rat \<Rightarrow> rat list \<Rightarrow> string \<Rightarrow> int \<Rightarrow> windowdata
     \<Rightarrow> bool" where
  "entry_of gs nm c ident cons i wd \<longleftrightarrow>
     (\<exists>ws. window gs ident i = Inr ws \<and> (\<forall>w \<in> set ws. w \<noteq> [])
        \<and> sliding wd = passing_records nm c cons i 0 ws
        \<and> wsize wd = i
        \<and> wmax wd = Max (insert 0 (mean ` set (sliding wd)))
        \<and> wmin wd = (if sliding wd = [] then None else Some (mean (last (sliding wd)))))"

text \<open>
  The body of \<open>for align in sample.alignedalleles\<close>, from the consensus and the score matrix
  on, and the loop itself. An exception ends the whole method.
\<close>

definition probefinder_align ::
  "bool \<Rightarrow> (rat list \<Rightarrow> rat) \<Rightarrow> settings \<Rightarrow> string \<times> pssm_line list
     \<Rightarrow> error + metadata" where
  "probefinder_align gs nm self align =
     (case identity_profile (snd align) of
        Inl e \<Rightarrow> Inl e
      | Inr ident \<Rightarrow>
          (case scan_sizes gs nm (cutoff self) ident (fst align) ([], False)
                  (rev [min_size self .. max_size self]) of
             Inl e \<Rightarrow> Inl e
           | Inr (wds, _) \<Rightarrow>
               Inr \<lparr>consensus = fst align, identity = ident, windows = wds\<rparr>))"

fun probefinder_aligns ::
  "bool \<Rightarrow> (rat list \<Rightarrow> rat) \<Rightarrow> settings \<Rightarrow> (string \<times> pssm_line list) list
     \<Rightarrow> error + metadata list" where
  "probefinder_aligns gs nm self [] = Inr []"
| "probefinder_aligns gs nm self (align # aligns) =
     (case probefinder_align gs nm self align of
        Inl e \<Rightarrow> Inl e
      | Inr m \<Rightarrow>
          (case probefinder_aligns gs nm self aligns of
             Inl e \<Rightarrow> Inl e
           | Inr ms \<Rightarrow> Inr (m # ms)))"

definition probefinder ::
  "bool \<Rightarrow> (rat list \<Rightarrow> rat) \<Rightarrow> settings \<Rightarrow> sample \<Rightarrow> error + sample" where
  "probefinder gs nm self smp =
     (case probefinder_aligns gs nm self (alignedalleles smp) of
        Inl e \<Rightarrow> Inl e
      | Inr ms \<Rightarrow> Inr (smp\<lparr>gene := ms\<rparr>))"

subsection \<open>\<open>probe_location\<close>\<close>

text \<open>
  \<^verbatim>\<open>
  for gene in sample.gene:
      for window in gene.windows:
          passed = False
          for sliding in window.sliding:
              if sliding.datastore and sliding.mean == window.max and sliding.mean >= window.min \
                      and not passed:
                  sample.location = sliding.location
                  passed = True
  \<close>
  \<open>sliding.datastore\<close> is the dictionary of the attributes of the object; every object in
  \<open>window.sliding\<close> has its four attributes, so the dictionary is not empty. The
  conjunction is evaluated from the left: \<open>window.min\<close> is read when the mean equals
  \<open>window.max\<close>, also when \<open>passed\<close> is already set.
\<close>

definition datastore :: "slidingdata \<Rightarrow> bool" where
  "datastore sd = True"

fun locate_sliding ::
  "windowdata \<Rightarrow> (int \<times> int) option \<times> bool \<Rightarrow> slidingdata list
     \<Rightarrow> error + (int \<times> int) option \<times> bool" where
  "locate_sliding wd (loc, passed) [] = Inr (loc, passed)"
| "locate_sliding wd (loc, passed) (sd # sds) =
     (if datastore sd \<and> mean sd = wmax wd then
        (case wmin wd of
           None \<Rightarrow> Inl AttributeError
         | Some lo \<Rightarrow>
             if lo \<le> mean sd \<and> \<not> passed
             then locate_sliding wd (Some (location sd), True) sds
             else locate_sliding wd (loc, passed) sds)
      else locate_sliding wd (loc, passed) sds)"

fun locate_windows ::
  "(int \<times> int) option \<Rightarrow> windowdata list \<Rightarrow> error + (int \<times> int) option" where
  "locate_windows loc [] = Inr loc"
| "locate_windows loc (wd # wds) =
     (case locate_sliding wd (loc, False) (sliding wd) of
        Inl e \<Rightarrow> Inl e
      | Inr (loc', _) \<Rightarrow> locate_windows loc' wds)"

fun locate_genes ::
  "(int \<times> int) option \<Rightarrow> metadata list \<Rightarrow> error + (int \<times> int) option" where
  "locate_genes loc [] = Inr loc"
| "locate_genes loc (g # genes) =
     (case locate_windows loc (windows g) of
        Inl e \<Rightarrow> Inl e
      | Inr loc' \<Rightarrow> locate_genes loc' genes)"

definition probe_location :: "sample \<Rightarrow> error + sample" where
  "probe_location smp =
     (case locate_genes (sample_location smp) (gene smp) of
        Inl e \<Rightarrow> Inl e
      | Inr loc \<Rightarrow> Inr (smp\<lparr>sample_location := loc\<rparr>))"

subsection \<open>\<open>probes\<close>\<close>

text \<open>
  \<^verbatim>\<open>
  start, stop = sample.location.split(':')
  sample.probeallele = set()
  for allele in sample.alleleset:
      sample.probeallele.add(allele[int(start):int(stop)])
  \<close>
  When \<open>sample.location\<close> was never assigned, the first line raises: whatever the
  attribute access of the object gives for a missing attribute, it is not a string with
  one colon.
\<close>

definition probes :: "sample \<Rightarrow> error + sample" where
  "probes smp =
     (case sample_location smp of
        None \<Rightarrow> Inl AttributeError
      | Some (start, stop) \<Rightarrow>
          Inr (smp\<lparr>probeallele := (\<lambda>allele. py_slice allele start stop) ` alleleset smp\<rparr>))"

text \<open>The three steps of \<open>main\<close> on one sample.\<close>

definition main ::
  "bool \<Rightarrow> (rat list \<Rightarrow> rat) \<Rightarrow> settings \<Rightarrow> sample \<Rightarrow> error + sample" where
  "main gs nm self smp =
     (case probefinder gs nm self smp of
        Inl e \<Rightarrow> Inl e
      | Inr smp1 \<Rightarrow>
          (case probe_location smp1 of
             Inl e \<Rightarrow> Inl e
           | Inr smp2 \<Rightarrow> probes smp2))"

subsection \<open>Example inputs\<close>

text \<open>
  \<open>column a c g t\<close> is the line of a score matrix of an alignment without gaps. The
  scenarios are pairs of a consensus and a score matrix with two rows per column.
\<close>

definition column :: "nat \<Rightarrow> nat \<Rightarrow> nat \<Rightarrow> nat \<Rightarrow> pssm_line" where
  "column a c g t = [CHR ''A'' \<mapsto> a, CHR ''C'' \<mapsto> c, CHR ''G'' \<mapsto> g, CHR ''T'' \<mapsto> t]"

definition example_settings :: settings where
  "example_settings = \<lparr>min_size = 2, max_size = 3, cutoff = 70\<rparr>"

definition scenario_A :: "string \<times> pssm_line list" where
  "scenario_A = (''AAAXX'', [column 2 0 0 0, column 2 0 0 0, column 2 0 0 0,
                              column 1 1 0 0, column 1 1 0 0])"

definition scenario_tie :: "string \<times> pssm_line list" where
  "scenario_tie = (''TACG'', [column 0 0 0 2, column 2 0 0 0, column 0 2 0 0, column 0 0 2 0])"

definition scenario_B :: "string \<times> pssm_line list" where
  "scenario_B = (''XXGT'', [column 1 1 0 0, column 1 1 0 0, column 0 0 2 0, column 0 0 0 2])"

definition scenario_none :: "string \<times> pssm_line list" where
  "scenario_none = (''XXGX'', [column 1 1 0 0, column 1 1 0 0, column 0 0 2 0, column 0 0 1 1])"

section \<open>Properties of the window generator\<close>

lemma slide_length: "length (slide win es) = Suc (length es)"
  by (induction es arbitrary: win) simp_all

lemma slide_nth:
  assumes "win \<noteq> []" and "j \<le> length es"
  shows "slide win es ! j = take (length win) (drop j (win @ es))"
  using assms
proof (induction es arbitrary: win j)
  case Nil
  then show ?case by simp
next
  case (Cons e es)
  show ?case
  proof (cases j)
    case 0
    then show ?thesis by simp
  next
    case (Suc m)
    obtain w ws where win: "win = w # ws"
      using Cons.prems(1) by (cases win) auto
    have "slide (tl win @ [e]) es ! m
            = take (length (tl win @ [e])) (drop m ((tl win @ [e]) @ es))"
      using Cons.prems(2) Suc by (intro Cons.IH) auto
    then show ?thesis
      using Suc win by simp
  qed
qed

lemma slide_singleton: "slide [x] es = map (\<lambda>y. [y]) (x # es)"
  by (induction es arbitrary: x) simp_all

lemma slide_empty: "slide [] es = [] # map (\<lambda>y. [y]) es"
  by (cases es) (simp_all add: slide_singleton)

lemma spec_windows_length:
  "length (spec_windows xs s) = nat (max 0 (int (length xs) - s + 1))"
  by (simp add: spec_windows_def)

lemma spec_windows_nth:
  assumes "k < length (spec_windows xs s)"
  shows "spec_windows xs s ! k = take (nat s) (drop k xs)"
proof -
  define n where "n = nat (max 0 (int (length xs) - s + 1))"
  have "k < n"
    using assms by (simp add: spec_windows_def n_def)
  then have "map (\<lambda>k. take (nat s) (drop k xs)) [0 ..< n] ! k = take (nat s) (drop k xs)"
    by simp
  then show ?thesis
    by (simp only: spec_windows_def n_def)
qed

lemma window_in_range:
  assumes "1 \<le> s" and "s \<le> int (length xs)"
  shows "window g xs s = Inr (spec_windows xs s)"
proof -
  let ?k = "nat s"
  have k: "0 < ?k" "?k \<le> length xs"
    using assms by auto
  have len: "nat (max 0 (int (length xs) - s + 1)) = Suc (length xs - ?k)"
    using assms by auto
  have "slide (take ?k xs) (drop ?k xs) = spec_windows xs s"
  proof (rule nth_equalityI)
    show "length (slide (take ?k xs) (drop ?k xs)) = length (spec_windows xs s)"
      using k by (simp add: slide_length spec_windows_def len)
  next
    fix j
    assume "j < length (slide (take ?k xs) (drop ?k xs))"
    then have j: "j \<le> length (drop ?k xs)"
      by (simp add: slide_length)
    have ne: "take ?k xs \<noteq> []"
      using k by auto
    have "slide (take ?k xs) (drop ?k xs) ! j = take ?k (drop j xs)"
      using slide_nth [OF ne j] k by (simp add: min_absorb2)
    moreover have "spec_windows xs s ! j = take ?k (drop j xs)"
      using j k by (intro spec_windows_nth) (simp add: spec_windows_length len)
    ultimately show "slide (take ?k xs) (drop ?k xs) ! j = spec_windows xs s ! j"
      by simp
  qed
  then show ?thesis
    using k by (simp add: window_def)
qed

lemma spec_windows_too_long: "int (length xs) < s \<Longrightarrow> spec_windows xs s = []"
  by (simp add: spec_windows_def)

lemma spec_windows_each_length:
  assumes "0 \<le> s" and "w \<in> set (spec_windows xs s)"
  shows "int (length w) = s"
proof -
  obtain k where k: "k < length (spec_windows xs s)" and w: "w = spec_windows xs s ! k"
    using assms(2) by (auto simp: in_set_conv_nth)
  have "int k + s \<le> int (length xs)"
    using k by (simp add: spec_windows_length)
  then show ?thesis
    using assms(1) w spec_windows_nth [OF k] by simp
qed

lemma window_too_long:
  assumes "int (length xs) < s"
  shows "window True xs s = Inl RuntimeError" and "window False xs s = Inr []"
proof -
  have "length xs < nat s"
    using assms by simp
  then show "window True xs s = Inl RuntimeError" and "window False xs s = Inr []"
    by (simp_all add: window_def Let_def)
qed

lemma window_nonpositive:
  assumes "s \<le> 0"
  shows "window g xs s = Inr ([] # map (\<lambda>y. [y]) xs)"
  using assms by (simp add: window_def slide_empty)

text \<open>
  Claim C3. For a size within the profile the generator yields the windows of the claim
  (\<open>window_in_range\<close>). For a size beyond the length of the profile the claim has zero
  windows and no failure; there \<open>next(i)\<close> raises \<open>StopIteration\<close> inside the generator, and
  under \<open>generator_stop\<close> semantics the caller gets \<open>RuntimeError\<close>: the profile \<open>[100, 60]\<close>
  scanned with size 3.
\<close>

theorem window_beyond_profile_raises:
  "window True [100 :: rat, 60] 3 = Inl RuntimeError
   \<and> spec_windows [100 :: rat, 60] 3 = []"
  by (simp add: window_def spec_windows_def)

section \<open>Properties of the floats\<close>

lemma round_half_even_lower: "\<lfloor>x\<rfloor> \<le> round_half_even x"
  by (simp add: round_half_even_def Let_def)

lemma round_half_even_upper: "round_half_even x \<le> \<lceil>x\<rceil>"
proof (cases "x = of_int \<lfloor>x\<rfloor>")
  case True
  then have "x - of_int \<lfloor>x\<rfloor> = 0" by simp
  then have "round_half_even x = \<lfloor>x\<rfloor>"
    by (simp add: round_half_even_def Let_def)
  then show ?thesis by simp
next
  case False
  then have "\<lceil>x\<rceil> = \<lfloor>x\<rfloor> + 1"
    by (metis ceiling_altdef)
  then show ?thesis
    by (simp add: round_half_even_def Let_def)
qed

lemma round_half_even_error: "\<bar>of_int (round_half_even x) - x\<bar> \<le> 1 / 2"
proof -
  define f where "f = \<lfloor>x\<rfloor>"
  define d where "d = x - of_int f"
  define r where "r = round_half_even x"
  have d: "0 \<le> d" "d < 1"
    unfolding d_def f_def by linarith+
  have r: "r = (if d < 1 / 2 then f else if 1 / 2 < d then f + 1
                else if even f then f else f + 1)"
    by (simp only: r_def round_half_even_def Let_def d_def f_def)
  have "\<bar>of_int r - (of_int f + d)\<bar> \<le> 1 / 2"
  proof (cases "d < 1 / 2")
    case True
    then have "r = f"
      using r by simp
    then show ?thesis
      using d True by simp
  next
    case False
    show ?thesis
    proof (cases "1 / 2 < d")
      case True
      then have "r = f + 1"
        using r False by simp
      then show ?thesis
        using d True by simp
    next
      case F2: False
      then have half: "d = 1 / 2"
        using False by simp
      have "r = f \<or> r = f + 1"
        using r by auto
      then show ?thesis
        unfolding half by auto
    qed
  qed
  moreover have "of_int f + d = x"
    by (simp add: d_def)
  ultimately show ?thesis
    by (simp only: r_def)
qed

lemma exponent_lower:
  assumes "0 < x"
  shows "2 powi (exponent x) \<le> x"
proof -
  obtain p q where pq: "quotient_of x = (p, q)"
    by (cases "quotient_of x")
  have q: "0 < q" and x: "x = of_int p / of_int q"
    using pq quotient_of_denom_pos quotient_of_div by blast+
  have p: "0 < p"
    using assms q x by (simp add: zero_less_divide_iff)
  define e where "e = bitlen p - bitlen q"
  show ?thesis
  proof (cases "2 powi e \<le> x")
    case True
    then show ?thesis
      by (simp add: exponent_def pq e_def)
  next
    case False
    then have ex: "exponent x = e - 1"
      by (simp add: exponent_def pq e_def)
    have bp: "2 ^ nat (bitlen p - 1) \<le> p" and bq: "q < 2 ^ nat (bitlen q)"
      using bitlen_bounds [OF p] bitlen_bounds [OF q] by simp_all
    have p1: "1 \<le> bitlen p" and q1: "0 \<le> bitlen q"
      using p bitlen_nonneg [of q] by (simp_all add: bitlen_alt_def)
    have "(2::rat) powi (e - 1) = 2 powi (bitlen p - 1) / 2 powi (bitlen q)"
      unfolding e_def using power_int_diff [of "2::rat" "bitlen p - 1" "bitlen q"]
      by (simp add: algebra_simps)
    also have "(2::rat) powi (bitlen p - 1) = 2 ^ nat (bitlen p - 1)"
      using p1 by (simp add: power_int_def)
    also have "(2::rat) powi (bitlen q) = 2 ^ nat (bitlen q)"
      using q1 by (simp add: power_int_def)
    finally have eq: "(2::rat) powi (e - 1) = 2 ^ nat (bitlen p - 1) / 2 ^ nat (bitlen q)" .
    have a: "(2::rat) ^ nat (bitlen p - 1) \<le> of_int p"
      using bp by (metis of_int_le_iff of_int_numeral of_int_power)
    have b: "(of_int q :: rat) \<le> 2 ^ nat (bitlen q)"
      using bq by (metis less_imp_le of_int_le_iff of_int_numeral of_int_power)
    have "(2::rat) ^ nat (bitlen p - 1) / 2 ^ nat (bitlen q) \<le> of_int p / of_int q"
      using a b q p by (intro frac_le) simp_all
    then have "2 powi (e - 1) \<le> x"
      by (simp only: eq x)
    then show ?thesis
      by (simp only: ex)
  qed
qed

lemma fl_error:
  assumes "0 \<le> x"
  shows "\<bar>fl x - x\<bar> \<le> x / 2 ^ 53"
proof (cases "x = 0")
  case True
  then show ?thesis by (simp add: fl_def)
next
  case False
  then have pos: "0 < x"
    using assms by simp
  define ulp :: rat where "ulp = 2 powi (exponent x - 52)"
  have ulp: "0 < ulp"
    by (simp add: ulp_def)
  have fl: "fl x = of_int (round_half_even (x / ulp)) * ulp"
    using pos by (simp add: fl_def ulp_def Let_def)
  have "fl x - x = (of_int (round_half_even (x / ulp)) - x / ulp) * ulp"
    using ulp by (simp add: fl algebra_simps)
  then have "\<bar>fl x - x\<bar> = \<bar>of_int (round_half_even (x / ulp)) - x / ulp\<bar> * ulp"
    using ulp by (simp add: abs_mult)
  also have "\<dots> \<le> 1 / 2 * ulp"
    using round_half_even_error [of "x / ulp"] ulp by (intro mult_right_mono) simp_all
  also have "ulp = 2 powi (exponent x) / 2 ^ 52"
    unfolding ulp_def using power_int_diff [of "2::rat" "exponent x" 52] by simp
  also have "1 / 2 * (2 powi (exponent x) / 2 ^ 52) = 2 powi (exponent x) / (2 ^ 53 :: rat)"
    by simp
  also have "\<dots> \<le> x / 2 ^ 53"
    using exponent_lower [OF pos] by (intro divide_right_mono) simp_all
  finally show ?thesis .
qed

lemma fl_nonneg:
  assumes "0 \<le> x"
  shows "0 \<le> fl x"
proof -
  have "x / 2 ^ 53 \<le> x"
    using assms by (simp add: divide_le_eq)
  then show ?thesis
    using fl_error [OF assms] by linarith
qed


lemma format2_error: "\<bar>format2 y - y\<bar> \<le> 1 / 200"
proof -
  define r :: rat where "r = of_int (round_half_even (y * 100))"
  have "\<bar>r - y * 100\<bar> \<le> 1 / 2"
    unfolding r_def by (rule round_half_even_error)
  then have "\<bar>r / 100 - y\<bar> \<le> 1 / 200"
    by linarith
  then show ?thesis
    by (simp only: format2_def r_def)
qed

lemma format2_nonneg:
  assumes "0 \<le> y"
  shows "0 \<le> format2 y"
proof -
  have "0 \<le> \<lfloor>y * 100\<rfloor>"
    using assms by simp
  then have "0 \<le> round_half_even (y * 100)"
    using round_half_even_lower [of "y * 100"] by linarith
  then show ?thesis
    by (simp add: format2_def)
qed

lemma float_format2_nonneg: "0 \<le> y \<Longrightarrow> 0 \<le> float_format2 y"
  unfolding float_format2_def by (intro fl_nonneg format2_nonneg)

lemma rounded_mean_nonneg: "0 \<le> nm w \<Longrightarrow> 0 \<le> rounded_mean nm w"
  unfolding rounded_mean_def by (rule float_format2_nonneg)

lemma percent_nonneg:
  assumes "percent m n = Inr v"
  shows "0 \<le> v"
proof -
  have v: "v = float_format2 (fl (fl (of_nat m / of_nat n) * 100))"
    using assms by (auto simp: percent_def split: if_splits)
  have "0 \<le> fl (of_nat m / of_nat n)"
    by (intro fl_nonneg) simp
  then have "0 \<le> fl (fl (of_nat m / of_nat n) * 100)"
    by (intro fl_nonneg) simp
  then show ?thesis
    unfolding v by (rule float_format2_nonneg)
qed

lemma fl_100: "fl 100 = 100"
  by code_simp

lemma nearest_hundredth:
  fixes d :: int and m n :: nat
  assumes n: "0 < n" "n \<le> 2 ^ 37"
    and close: "\<bar>of_int d - 10000 * (of_nat m / of_nat n :: rat)\<bar> \<le> 1 / 2 + 30000 / 2 ^ 53"
  shows "\<bar>of_int d - 10000 * (of_nat m / of_nat n :: rat)\<bar> \<le> 1 / 2"
proof -
  define D :: int where "D = d * int n - 10000 * int m"
  have npos: "(0::rat) < of_nat n"
    using n(1) by simp
  have eq: "of_int d - 10000 * (of_nat m / of_nat n :: rat) = of_int D / of_nat n"
    using n(1) by (simp add: D_def field_simps)
  have nle: "(of_nat n :: rat) \<le> 2 ^ 37"
    using n(2) by (metis of_nat_le_iff of_nat_numeral of_nat_power)
  have "\<bar>of_int D :: rat\<bar> / of_nat n \<le> 1 / 2 + 30000 / 2 ^ 53"
    using close npos unfolding eq by (simp add: abs_divide del: of_int_abs)
  then have "\<bar>of_int D :: rat\<bar> \<le> (1 / 2 + 30000 / 2 ^ 53) * of_nat n"
    using npos by (simp add: pos_divide_le_eq del: of_int_abs)
  also have "\<dots> = of_nat n / 2 + 30000 / 2 ^ 53 * of_nat n"
    by (simp add: algebra_simps)
  also have "30000 / 2 ^ 53 * (of_nat n :: rat) \<le> 30000 / 2 ^ 53 * 2 ^ 37"
    using nle by (intro mult_left_mono) simp_all
  also have "(30000 / 2 ^ 53 * 2 ^ 37 :: rat) < 1 / 2"
    by simp
  finally have "2 * \<bar>of_int D :: rat\<bar> < of_nat n + 1"
    by simp
  then have "(of_int (2 * \<bar>D\<bar>) :: rat) < of_int (int n + 1)"
    by simp
  then have "2 * \<bar>D\<bar> < int n + 1"
    by (simp only: of_int_less_iff)
  then have "2 * \<bar>D\<bar> \<le> int n"
    by simp
  then have "(of_int (2 * \<bar>D\<bar>) :: rat) \<le> of_int (int n)"
    by (simp only: of_int_le_iff)
  then have "\<bar>of_int D :: rat\<bar> \<le> of_nat n / 2"
    by simp
  then have "\<bar>of_int D :: rat\<bar> / of_nat n \<le> 1 / 2"
    using npos by (simp add: pos_divide_le_eq del: of_int_abs)
  then show ?thesis
    unfolding eq using npos by (simp add: abs_divide del: of_int_abs)
qed

lemma percent_value:
  assumes "percent m n = Inr v" and "m \<le> n" and "n \<le> 2 ^ 37"
  shows "\<exists>d :: int.
           \<bar>of_int d / 100 - of_nat m / of_nat n * 100\<bar> \<le> (1 / 200 :: rat)
           \<and> \<bar>v - of_int d / 100\<bar> \<le> of_int d / 100 / 2 ^ 53
           \<and> 0 \<le> v \<and> v \<le> 100"
proof -
  define a :: rat where "a = of_nat m / of_nat n"
  define q where "q = fl a"
  define y where "y = fl (q * 100)"
  define d where "d = round_half_even (y * 100)"
  define u :: rat where "u = 1 / 2 ^ 53"
  have u: "0 < u" "u \<le> 1 / 1000000"
    by (simp_all add: u_def)
  have div_u: "x / 2 ^ 53 = x * u" for x :: rat
    by (simp add: u_def)
  have n: "0 < n" and v: "v = fl (of_int d / 100)"
    using assms(1)
    by (auto simp: percent_def float_format2_def format2_def d_def y_def q_def a_def
             split: if_splits)
  have a: "0 \<le> a" "a \<le> 1"
    using n assms(2) by (simp_all add: a_def divide_le_eq_1)
  have "\<bar>q - a\<bar> \<le> a * u"
    unfolding q_def div_u [symmetric] using a(1) by (rule fl_error)
  moreover have "a * u \<le> 1 * u"
    using a(2) u(1) by (intro mult_right_mono) simp_all
  ultimately have qa: "\<bar>q - a\<bar> \<le> u"
    by linarith
  have q0: "0 \<le> q"
    unfolding q_def using a(1) by (rule fl_nonneg)
  have q2: "q \<le> 2"
    using qa a(2) u by linarith
  have "\<bar>y - q * 100\<bar> \<le> q * 100 * u"
    unfolding y_def div_u [symmetric] using q0 by (intro fl_error) simp
  moreover have "q * 100 * u \<le> 2 * 100 * u"
    using q2 u(1) by (intro mult_right_mono) simp_all
  ultimately have yq: "\<bar>y - q * 100\<bar> \<le> 200 * u"
    by linarith
  have y: "0 \<le> y"
    unfolding y_def using q0 by (intro fl_nonneg) simp
  have dy: "\<bar>of_int d - y * 100\<bar> \<le> 1 / 2"
    unfolding d_def by (rule round_half_even_error)
  have "\<bar>of_int d - 10000 * a\<bar> \<le> 1 / 2 + 30000 * u"
    using dy yq qa by linarith
  then have "\<bar>of_int d - 10000 * (of_nat m / of_nat n :: rat)\<bar> \<le> 1 / 2 + 30000 / 2 ^ 53"
    by (simp add: a_def u_def)
  then have "\<bar>of_int d - 10000 * (of_nat m / of_nat n :: rat)\<bar> \<le> 1 / 2"
    using n assms(3) by (intro nearest_hundredth)
  then have da: "\<bar>of_int d - 10000 * a\<bar> \<le> 1 / 2"
    by (simp only: a_def)
  then have near: "\<bar>of_int d / 100 - a * 100\<bar> \<le> 1 / 200"
    by linarith
  have "0 \<le> \<lfloor>y * 100\<rfloor>"
    using y by simp
  then have d0: "0 \<le> d"
    unfolding d_def using round_half_even_lower [of "y * 100"] by linarith
  have "(of_int d :: rat) \<le> 10000 + 1 / 2"
    using da a(2) by linarith
  then have "(of_int d :: rat) < of_int 10001"
    by simp
  then have d1: "d \<le> 10000"
    by (simp only: of_int_less_iff)
  have d0r: "(0::rat) \<le> of_int d / 100"
    using d0 by simp
  have vd: "\<bar>v - of_int d / 100\<bar> \<le> of_int d / 100 / 2 ^ 53"
    unfolding v using d0r by (rule fl_error)
  have v0: "0 \<le> v"
    unfolding v using d0r by (rule fl_nonneg)
  have v1: "v \<le> 100"
  proof (cases "d = 10000")
    case True
    then show ?thesis
      by (simp add: v fl_100)
  next
    case False
    then have "d \<le> 9999"
      using d1 by simp
    then have "(of_int d :: rat) \<le> of_int 9999"
      by (simp only: of_int_le_iff)
    then have le: "(of_int d :: rat) / 100 \<le> 9999 / 100"
      by simp
    then have "(of_int d :: rat) / 100 * u \<le> 9999 / 100 * u"
      using u(1) by (intro mult_right_mono) simp_all
    moreover have "\<bar>v - of_int d / 100\<bar> \<le> of_int d / 100 * u"
      using vd by (simp only: div_u)
    ultimately show ?thesis
      using le u by linarith
  qed
  show ?thesis
    using near vd v0 v1 unfolding a_def by blast
qed

lemma sequential_sum_nonneg:
  assumes "0 \<le> acc" and "\<forall>v \<in> set w. 0 \<le> v"
  shows "0 \<le> foldl (\<lambda>acc v. fl (acc + v)) acc w"
  using assms
proof (induction w arbitrary: acc)
  case Nil
  then show ?case by simp
next
  case (Cons v w)
  have "0 \<le> fl (acc + v)"
    using Cons.prems by (intro fl_nonneg) simp
  then show ?case
    using Cons.prems Cons.IH by simp
qed

lemma sequential_mean_nonneg:
  "\<forall>w. w \<noteq> [] \<longrightarrow> (\<forall>v \<in> set w. 0 \<le> v) \<longrightarrow> 0 \<le> sequential_mean w"
proof (intro allI impI)
  fix w :: "rat list"
  assume "\<forall>v \<in> set w. 0 \<le> v"
  then have "0 \<le> foldl (\<lambda>acc v. fl (acc + v)) 0 w"
    by (intro sequential_sum_nonneg) simp_all
  then have "0 \<le> foldl (\<lambda>acc v. fl (acc + v)) 0 w / of_nat (length w)"
    by simp
  then show "0 \<le> sequential_mean w"
    unfolding sequential_mean_def by (rule fl_nonneg)
qed


section \<open>Properties of the identity profile\<close>

lemma getitems_ACGT:
  "getitems line ''ACGT'' = Inr bases \<longleftrightarrow>
     (\<exists>a c g t. line (CHR ''A'') = Some a \<and> line (CHR ''C'') = Some c
        \<and> line (CHR ''G'') = Some g \<and> line (CHR ''T'') = Some t \<and> bases = [a, c, g, t])"
  by (auto split: option.splits)

lemma getitems_ACGT_gap:
  "getitems line ''ACGT-'' = Inr bases \<longleftrightarrow>
     (\<exists>a c g t d. line (CHR ''A'') = Some a \<and> line (CHR ''C'') = Some c
        \<and> line (CHR ''G'') = Some g \<and> line (CHR ''T'') = Some t
        \<and> line (CHR ''-'') = Some d \<and> bases = [a, c, g, t, d])"
  by (auto split: option.splits)

lemma column_identity_Inr:
  assumes "column_identity line = Inr v"
  shows "\<exists>a c g t. line (CHR ''A'') = Some a \<and> line (CHR ''C'') = Some c
          \<and> line (CHR ''G'') = Some g \<and> line (CHR ''T'') = Some t
          \<and> percent (Max {a, c, g, t}) (a + c + g + t + gap_count line) = Inr v"
proof (cases "getitems line ''ACGT-''")
  case (Inr bases)
  then obtain a c g t d where l: "line (CHR ''A'') = Some a" "line (CHR ''C'') = Some c"
      "line (CHR ''G'') = Some g" "line (CHR ''T'') = Some t"
      "line (CHR ''-'') = Some d" "bases = [a, c, g, t, d]"
    unfolding getitems_ACGT_gap by blast
  have "percent (Max (set (take 4 bases))) (sum_list bases) = Inr v"
    using assms Inr by (simp add: column_identity_def)
  then have "percent (Max {a, c, g, t}) (a + c + g + t + d) = Inr v"
    using l(6) by (simp add: add.assoc)
  then show ?thesis
    using l by (simp add: gap_count_def)
next
  case (Inl e)
  show ?thesis
  proof (cases "getitems line ''ACGT''")
    case (Inr bases)
    then obtain a c g t where l: "line (CHR ''A'') = Some a" "line (CHR ''C'') = Some c"
        "line (CHR ''G'') = Some g" "line (CHR ''T'') = Some t" "bases = [a, c, g, t]"
      unfolding getitems_ACGT by blast
    have nogap: "line (CHR ''-'') = None"
      using Inl l by (auto split: option.splits)
    have "percent (Max (set bases)) (sum_list bases) = Inr v"
      using assms Inl Inr by (simp add: column_identity_def)
    then have "percent (Max {a, c, g, t}) (a + c + g + t) = Inr v"
      using l(5) by (simp add: add.assoc)
    then show ?thesis
      using l nogap by (simp add: gap_count_def)
  next
    case Inl2: (Inl e2)
    then show ?thesis
      using assms Inl by (simp add: column_identity_def)
  qed
qed

lemma identity_profile_nth:
  assumes "identity_profile pssm = Inr profile"
  shows "length profile = length pssm
         \<and> (\<forall>i < length pssm. column_identity (pssm ! i) = Inr (profile ! i))"
  using assms
proof (induction pssm arbitrary: profile)
  case Nil
  then show ?case by simp
next
  case (Cons line pssm)
  from Cons.prems obtain v vs where v: "column_identity line = Inr v"
      and vs: "identity_profile pssm = Inr vs" and p: "profile = v # vs"
    by (auto split: sum.splits)
  have ih: "length vs = length pssm"
      "\<forall>i < length pssm. column_identity (pssm ! i) = Inr (vs ! i)"
    using Cons.IH [OF vs] by simp_all
  show ?case
  proof (intro conjI allI impI)
    show "length profile = length (line # pssm)"
      using ih(1) p by simp
  next
    fix i
    assume "i < length (line # pssm)"
    then show "column_identity ((line # pssm) ! i) = Inr (profile ! i)"
      using v ih(2) p by (cases i) simp_all
  qed
qed

lemma Max4_le_sum: "Max {a, c, g, t} \<le> a + c + g + t + (d::nat)"
  by simp

text \<open>
  Claim C2. Whenever the profile is built, it has one value per line of the score matrix
  (one line per alignment column). The value at column \<open>i\<close> is the float of a decimal with
  two digits, \<open>d / 100\<close>, that lies within half a unit of the second decimal of the count
  of the most frequent of A, C, G, T, divided by the sum of the counts of A, C, G, T and
  of the gap when the line has the key \<open>-\<close>, times 100; as a float it differs from
  \<open>d / 100\<close> by a relative error of at most \<open>2\<^sup>-\<^sup>5\<^sup>3\<close>. The value lies between 0 and 100.
  The counts are taken below \<open>2\<^sup>3\<^sup>2\<close>, which any alignment satisfies.
\<close>

theorem identity_profile_values:
  assumes "identity_profile pssm = Inr profile"
    and "\<forall>line \<in> set pssm. \<forall>k n. line k = Some n \<longrightarrow> n < 2 ^ 32"
  shows "length profile = length pssm
         \<and> (\<forall>i < length pssm.
               \<exists>a c g t. (pssm ! i) (CHR ''A'') = Some a \<and> (pssm ! i) (CHR ''C'') = Some c
                 \<and> (pssm ! i) (CHR ''G'') = Some g \<and> (pssm ! i) (CHR ''T'') = Some t
                 \<and> 0 < a + c + g + t + gap_count (pssm ! i)
                 \<and> (\<exists>d :: int.
                       \<bar>of_int d / 100
                          - of_nat (Max {a, c, g, t})
                            / of_nat (a + c + g + t + gap_count (pssm ! i)) * 100\<bar>
                         \<le> (1 / 200 :: rat)
                       \<and> \<bar>profile ! i - of_int d / 100\<bar> \<le> of_int d / 100 / 2 ^ 53)
                 \<and> 0 \<le> profile ! i \<and> profile ! i \<le> 100)"
proof (intro conjI allI impI)
  show "length profile = length pssm"
    using identity_profile_nth [OF assms(1)] by simp
next
  fix i
  assume i: "i < length pssm"
  let ?line = "pssm ! i"
  have "column_identity ?line = Inr (profile ! i)"
    using identity_profile_nth [OF assms(1)] i by simp
  then obtain a c g t where l: "?line (CHR ''A'') = Some a"
      "?line (CHR ''C'') = Some c" "?line (CHR ''G'') = Some g"
      "?line (CHR ''T'') = Some t"
    and p: "percent (Max {a, c, g, t}) (a + c + g + t + gap_count ?line) = Inr (profile ! i)"
    using column_identity_Inr by blast
  have small: "n < 2 ^ 32" if "?line k = Some n" for k n
    using assms(2) i that nth_mem by blast
  have "gap_count ?line < 2 ^ 32"
  proof (cases "?line (CHR ''-'')")
    case None
    then show ?thesis by (simp add: gap_count_def)
  next
    case (Some n)
    then show ?thesis
      using small by (simp add: gap_count_def)
  qed
  then have "a + c + g + t + gap_count ?line < 5 * 2 ^ 32"
    using small [OF l(1)] small [OF l(2)] small [OF l(3)] small [OF l(4)] by linarith
  then have le: "a + c + g + t + gap_count ?line \<le> 2 ^ 37"
    by simp
  have pos: "0 < a + c + g + t + gap_count ?line"
    using p by (cases "a + c + g + t + gap_count ?line = 0") (simp_all add: percent_def)
  from percent_value [OF p Max4_le_sum le] obtain d :: int
    where "\<bar>of_int d / 100
              - of_nat (Max {a, c, g, t}) / of_nat (a + c + g + t + gap_count ?line) * 100\<bar>
             \<le> (1 / 200 :: rat)"
      "\<bar>profile ! i - of_int d / 100\<bar> \<le> of_int d / 100 / 2 ^ 53"
      "0 \<le> profile ! i" "profile ! i \<le> 100"
    by blast
  then show "\<exists>a c g t. ?line (CHR ''A'') = Some a \<and> ?line (CHR ''C'') = Some c
                 \<and> ?line (CHR ''G'') = Some g \<and> ?line (CHR ''T'') = Some t
                 \<and> 0 < a + c + g + t + gap_count ?line
                 \<and> (\<exists>d :: int.
                       \<bar>of_int d / 100
                          - of_nat (Max {a, c, g, t})
                            / of_nat (a + c + g + t + gap_count ?line) * 100\<bar>
                         \<le> (1 / 200 :: rat)
                       \<and> \<bar>profile ! i - of_int d / 100\<bar> \<le> of_int d / 100 / 2 ^ 53)
                 \<and> 0 \<le> profile ! i \<and> profile ! i \<le> 100"
    using l pos by blast
qed

theorem identity_profile_values_witness:
  "identity_profile
      [[CHR ''A'' \<mapsto> 93, CHR ''C'' \<mapsto> 67, CHR ''G'' \<mapsto> 0, CHR ''T'' \<mapsto> 0],
       [CHR ''A'' \<mapsto> 23, CHR ''C'' \<mapsto> 22, CHR ''G'' \<mapsto> 22, CHR ''T'' \<mapsto> 22, CHR ''-'' \<mapsto> 71]]
     = Inr [fl (5813 / 100), fl (1437 / 100)]
   \<and> \<bar>5813 / 100 - 93 / 160 * 100\<bar> \<le> (1 / 200 :: rat)
   \<and> \<bar>1437 / 100 - 23 / 160 * 100\<bar> \<le> (1 / 200 :: rat)"
proof -
  let ?pssm = "[[CHR ''A'' \<mapsto> 93, CHR ''C'' \<mapsto> 67, CHR ''G'' \<mapsto> 0, CHR ''T'' \<mapsto> 0],
       [CHR ''A'' \<mapsto> 23, CHR ''C'' \<mapsto> 22, CHR ''G'' \<mapsto> 22, CHR ''T'' \<mapsto> 22,
        CHR ''-'' \<mapsto> 71 :: nat]]"
  have h1: "identity_profile ?pssm = Inr [fl (5813 / 100), fl (1437 / 100)]"
    by code_simp
  have h2: "\<forall>line \<in> set ?pssm. \<forall>k n. line k = Some n \<longrightarrow> n < 2 ^ 32"
    by (auto split: if_splits)
  have h3: "\<bar>5813 / 100 - 93 / 160 * 100\<bar> \<le> (1 / 200 :: rat)"
      "\<bar>1437 / 100 - 23 / 160 * 100\<bar> \<le> (1 / 200 :: rat)"
    by simp_all
  show ?thesis
    using identity_profile_values [OF h1 h2] h1 h3 by blast
qed

section \<open>Properties of the padding\<close>

lemma length_le_maxlen:
  assumes "r \<in> set records"
  shows "length r \<le> Max (set (map length records))"
  using assms by (intro Max_ge) auto

lemma pad_records_Inr:
  assumes "records \<noteq> []"
  shows "pad_records records
           = Inr (map (\<lambda>r. r @ replicate (Max (set (map length records)) - length r) (CHR ''.''))
                    records)"
proof -
  let ?m = "Max (set (map length records))"
  let ?padded = "map (\<lambda>r. if length r \<noteq> ?m then ljust r ?m (CHR ''.'') else r) records"
  have eq: "?padded = map (\<lambda>r. r @ replicate (?m - length r) (CHR ''.'')) records"
    by (rule map_cong) (auto simp: ljust_def)
  have "\<forall>r \<in> set records. length r \<le> ?m"
    using length_le_maxlen by blast
  then have "list_all (\<lambda>r. length r = ?m) (map (\<lambda>r. r @ replicate (?m - length r) (CHR ''.'')) records)"
    by (auto simp: list_all_iff)
  then have all: "list_all (\<lambda>r. length r = ?m) ?padded"
    by (simp only: eq)
  have "pad_records records = (if list_all (\<lambda>r. length r = ?m) ?padded then Inr ?padded else Inl AssertionError)"
    using assms by (simp only: pad_records_def Let_def if_False)
  then have "pad_records records = Inr ?padded"
    by (simp only: all if_True)
  then show ?thesis
    by (simp only: eq)
qed

lemma pad_records_not_assertion: "pad_records records \<noteq> Inl AssertionError"
proof (cases "records = []")
  case True
  then show ?thesis by (simp add: pad_records_def)
next
  case False
  then show ?thesis by (simp add: pad_records_Inr)
qed

lemma AlignIO_read_Inr:
  assumes "AlignIO_read rows = Inr a"
  shows "a = rows \<and> rows \<noteq> [] \<and> (\<forall>r \<in> set rows. length r = length (hd rows))"
proof -
  have ne: "rows \<noteq> []"
    using assms by (cases "rows = []") (simp_all add: AlignIO_read_def)
  have all: "list_all (\<lambda>r. length r = length (hd rows)) rows"
    using assms ne
    by (cases "list_all (\<lambda>r. length r = length (hd rows)) rows")
       (simp_all only: AlignIO_read_def if_False if_True sum.inject sum.distinct)
  have "a = rows"
    using assms ne all by (simp only: AlignIO_read_def if_False if_True sum.inject)
  moreover have "\<forall>r \<in> set rows. length r = length (hd rows)"
    using all by (simp only: list_all_iff)
  ultimately show ?thesis
    using ne by blast
qed

lemma AlignIO_read_rectangular:
  assumes "rows \<noteq> []" and "\<forall>r \<in> set rows. length r = n"
  shows "AlignIO_read rows = Inr rows"
proof -
  have "hd rows \<in> set rows"
    using assms(1) by simp
  then have "length (hd rows) = n"
    using assms(2) by blast
  then have "list_all (\<lambda>r. length r = length (hd rows)) rows"
    using assms(2) by (simp only: list_all_iff)
  then show ?thesis
    using assms(1) by (simp only: AlignIO_read_def if_False if_True)
qed

lemma read_alignment_Inr:
  assumes "rows \<noteq> []"
  shows "read_alignment rows
           = Inr (map (\<lambda>r. r @ replicate (Max (set (map length rows)) - length r) (CHR ''.''))
                    rows)"
proof -
  let ?m = "Max (set (map length rows))"
  let ?padded = "map (\<lambda>r. r @ replicate (?m - length r) (CHR ''.'')) rows"
  have le: "\<forall>r \<in> set rows. length r \<le> ?m"
    using length_le_maxlen by blast
  have pad: "pad_records rows = Inr ?padded"
    using assms by (rule pad_records_Inr)
  have rect: "\<forall>r \<in> set ?padded. length r = ?m"
    using le by auto
  have ne: "?padded \<noteq> []"
    using assms by simp
  have again: "AlignIO_read ?padded = Inr ?padded"
    using ne rect by (rule AlignIO_read_rectangular)
  show ?thesis
  proof (cases "AlignIO_read rows")
    case (Inl e)
    then show ?thesis
      using pad again by (simp only: read_alignment_def sum.case)
  next
    case (Inr a)
    then have a: "a = rows" and same: "\<forall>r \<in> set rows. length r = length (hd rows)"
      using AlignIO_read_Inr by blast+
    have "length ` set rows = {length (hd rows)}"
      using same assms by (cases rows) auto
    then have m: "?m = length (hd rows)"
      by simp
    have "\<forall>r \<in> set rows. r @ replicate (?m - length r) (CHR ''.'') = r"
      using same unfolding m by simp
    then have "?padded = rows"
      by (intro map_idI) blast
    then show ?thesis
      using Inr a by (simp only: read_alignment_def sum.case)
  qed
qed

lemma getitems_ignores:
  assumes "k \<notin> set ks"
  shows "getitems (line(k \<mapsto> v)) ks = getitems line ks"
  using assms by (induction ks) (auto split: option.splits)

lemma column_identity_ignores:
  assumes "k \<notin> set ''ACGT-''"
  shows "column_identity (line(k \<mapsto> v)) = column_identity line"
proof -
  have "getitems (line(k \<mapsto> v)) ''ACGT-'' = getitems line ''ACGT-''"
    using assms by (rule getitems_ignores)
  moreover have "getitems (line(k \<mapsto> v)) ''ACGT'' = getitems line ''ACGT''"
    using assms by (intro getitems_ignores) auto
  ultimately show ?thesis
    by (simp only: column_identity_def)
qed

text \<open>
  Claim C9. Rows of unequal length are right-padded with \<open>.\<close> to the length of the longest
  row before the alignment is read again; whatever \<open>read_alignment\<close> returns has rows of
  one length, the assertion after the padding never fails, and the count stored for the
  padding symbol in a line of the score matrix changes neither the numerator nor the
  denominator of the identity of the column.
\<close>

theorem padding_before_profile:
  "(rows \<noteq> [] \<longrightarrow>
      (\<exists>a. read_alignment rows = Inr a \<and> length a = length rows
         \<and> (\<forall>k < length rows.
               a ! k = rows ! k @ replicate (Max (set (map length rows)) - length (rows ! k))
                                    (CHR ''.'')
               \<and> length (a ! k) = Max (set (map length rows)))))
   \<and> (\<forall>a. read_alignment rows = Inr a \<longrightarrow> (\<forall>r \<in> set a. length r = length (hd a)))
   \<and> pad_records rows \<noteq> Inl AssertionError
   \<and> column_identity (line(CHR ''.'' \<mapsto> v)) = column_identity line"
proof (intro conjI impI allI)
  assume ne: "rows \<noteq> []"
  let ?m = "Max (set (map length rows))"
  let ?a = "map (\<lambda>r. r @ replicate (?m - length r) (CHR ''.'')) rows"
  have "\<forall>k < length rows. length (rows ! k) \<le> ?m"
    using length_le_maxlen by simp
  then have "\<forall>k < length rows.
               ?a ! k = rows ! k @ replicate (?m - length (rows ! k)) (CHR ''.'')
               \<and> length (?a ! k) = ?m"
    by simp
  then show "\<exists>a. read_alignment rows = Inr a \<and> length a = length rows
         \<and> (\<forall>k < length rows.
               a ! k = rows ! k @ replicate (?m - length (rows ! k)) (CHR ''.'')
               \<and> length (a ! k) = ?m)"
    using read_alignment_Inr [OF ne] by simp
next
  fix a
  assume "read_alignment rows = Inr a"
  then have "AlignIO_read a = Inr a"
    by (auto simp: read_alignment_def AlignIO_read_def split: sum.splits if_splits)
  then show "\<forall>r \<in> set a. length r = length (hd a)"
    using AlignIO_read_Inr by blast
next
  show "pad_records rows \<noteq> Inl AssertionError"
    by (rule pad_records_not_assertion)
next
  show "column_identity (line(CHR ''.'' \<mapsto> v)) = column_identity line"
    by (rule column_identity_ignores) simp
qed

theorem padding_before_profile_witness:
  "[''ACGT'', ''AC''] \<noteq> []
   \<and> read_alignment [''ACGT'', ''AC''] = Inr [''ACGT'', ''AC..'']
   \<and> column_identity [CHR ''A'' \<mapsto> 1, CHR ''C'' \<mapsto> 1, CHR ''G'' \<mapsto> 0, CHR ''T'' \<mapsto> 0, CHR ''.'' \<mapsto> 7]
       = column_identity [CHR ''A'' \<mapsto> 1, CHR ''C'' \<mapsto> 1, CHR ''G'' \<mapsto> 0, CHR ''T'' \<mapsto> 0]"
proof -
  have h: "[''ACGT'', ''AC''] \<noteq> []" by simp
  have r: "read_alignment [''ACGT'', ''AC''] = Inr [''ACGT'', ''AC..'']"
    by (simp add: read_alignment_def AlignIO_read_def pad_records_def ljust_def)
  show ?thesis
    using padding_before_profile
            [of "[''ACGT'', ''AC'']"
                "[CHR ''A'' \<mapsto> 1, CHR ''C'' \<mapsto> 1, CHR ''G'' \<mapsto> 0, CHR ''T'' \<mapsto> 0]" 7] h r
    by simp
qed

section \<open>Properties of the scan of one window size\<close>

lemma scan_windows_empty_window:
  "scan_windows nm c cons i (wd, p) n ([] # ws) = Inl ValueError"
  by simp

lemma scan_windows_pass:
  assumes "w \<noteq> []" and "c < Min (set w)"
  shows "scan_windows nm c cons i (wd, p) n (w # ws)
           = scan_windows nm c cons i (record_passing wd (new_sliding nm cons i n w), True) (n + 1) ws"
  using assms
  apply (simp only: scan_windows.simps if_False if_True)
  apply (simp add: Let_def record_passing_def new_sliding_def max_def del: Min_gr_iff)
  done

lemma scan_windows_fail:
  assumes "w \<noteq> []" and "\<not> c < Min (set w)"
  shows "scan_windows nm c cons i (wd, p) n (w # ws) = scan_windows nm c cons i (wd, p) (n + 1) ws"
  using assms by (simp only: scan_windows.simps if_False)

lemma scan_windows_sliding:
  assumes "scan_windows nm c cons i (wd, p) n ws = Inr (wd', p')"
  shows "sliding wd' = sliding wd @ passing_records nm c cons i n ws
         \<and> wsize wd' = wsize wd
         \<and> p' = (p \<or> passing_records nm c cons i n ws \<noteq> [])"
  using assms
proof (induction ws arbitrary: wd p n)
  case Nil
  then show ?case by simp
next
  case (Cons w ws)
  have ne: "w \<noteq> []"
    using Cons.prems by (cases w) simp_all
  show ?case
  proof (cases "c < Min (set w)")
    case True
    have "scan_windows nm c cons i (record_passing wd (new_sliding nm cons i n w), True) (n + 1) ws
            = Inr (wd', p')"
      using Cons.prems scan_windows_pass [OF ne True] by simp
    from Cons.IH [OF this] show ?thesis
      using True by (simp add: record_passing_def)
  next
    case False
    have "scan_windows nm c cons i (wd, p) (n + 1) ws = Inr (wd', p')"
      using Cons.prems scan_windows_fail [OF ne False] by simp
    from Cons.IH [OF this] show ?thesis
      using False by simp
  qed
qed

lemma scan_windows_nonempty:
  assumes "scan_windows nm c cons i (wd, p) n ws = Inr r"
  shows "\<forall>w \<in> set ws. w \<noteq> []"
  using assms
proof (induction ws arbitrary: wd p n)
  case Nil
  then show ?case by simp
next
  case (Cons w ws)
  have ne: "w \<noteq> []"
    using Cons.prems by (cases w) simp_all
  show ?case
  proof (cases "c < Min (set w)")
    case True
    then show ?thesis
      using Cons.prems Cons.IH ne scan_windows_pass [OF ne True, of nm cons i wd p n ws]
      by (auto simp del: scan_windows.simps)
  next
    case False
    then show ?thesis
      using Cons.prems Cons.IH ne scan_windows_fail [OF ne False, of nm cons i wd p n ws]
      by (auto simp del: scan_windows.simps)
  qed
qed

lemma scan_windows_total:
  assumes "\<forall>w \<in> set ws. w \<noteq> []"
  shows "\<exists>r. scan_windows nm c cons i (wd, p) n ws = Inr r"
  using assms
proof (induction ws arbitrary: wd p n)
  case Nil
  then show ?case by simp
next
  case (Cons w ws)
  have ne: "w \<noteq> []"
    using Cons.prems by simp
  show ?case
  proof (cases "c < Min (set w)")
    case True
    then show ?thesis
      using Cons.prems Cons.IH scan_windows_pass [OF ne True, of nm cons i wd p n ws]
      by (simp del: scan_windows.simps)
  next
    case False
    then show ?thesis
      using Cons.prems Cons.IH scan_windows_fail [OF ne False, of nm cons i wd p n ws]
      by (simp del: scan_windows.simps)
  qed
qed

lemma scan_windows_wmax:
  assumes "scan_windows nm c cons i (wd, p) n ws = Inr (wd', p')"
  shows "wmax wd' = Max (insert (wmax wd) (mean ` set (passing_records nm c cons i n ws)))"
  using assms
proof (induction ws arbitrary: wd p n)
  case Nil
  then show ?case by simp
next
  case (Cons w ws)
  have ne: "w \<noteq> []"
    using Cons.prems by (cases w) simp_all
  show ?case
  proof (cases "c < Min (set w)")
    case False
    have "scan_windows nm c cons i (wd, p) (n + 1) ws = Inr (wd', p')"
      using Cons.prems scan_windows_fail [OF ne False] by simp
    from Cons.IH [OF this] show ?thesis
      using False by simp
  next
    case True
    let ?S = "mean ` set (passing_records nm c cons i (n + 1) ws)"
    let ?sd = "new_sliding nm cons i n w"
    have "scan_windows nm c cons i (record_passing wd ?sd, True) (n + 1) ws = Inr (wd', p')"
      using Cons.prems scan_windows_pass [OF ne True] by simp
    then have "wmax wd' = Max (insert (wmax (record_passing wd ?sd)) ?S)"
      by (rule Cons.IH)
    also have "wmax (record_passing wd ?sd) = max (wmax wd) (mean ?sd)"
      by (simp add: record_passing_def)
    also have "Max (insert (max (wmax wd) (mean ?sd)) ?S)
                 = Max (insert (wmax wd) (insert (mean ?sd) ?S))"
      by (cases "?S = {}") (simp_all add: max.assoc)
    finally show ?thesis
      using True by simp
  qed
qed

lemma scan_windows_wmin:
  assumes "scan_windows nm c cons i (wd, p) n ws = Inr (wd', p')"
  shows "wmin wd' = (if passing_records nm c cons i n ws = [] then wmin wd
                     else Some (mean (last (passing_records nm c cons i n ws))))"
  using assms
proof (induction ws arbitrary: wd p n)
  case Nil
  then show ?case by simp
next
  case (Cons w ws)
  have ne: "w \<noteq> []"
    using Cons.prems by (cases w) simp_all
  show ?case
  proof (cases "c < Min (set w)")
    case False
    have "scan_windows nm c cons i (wd, p) (n + 1) ws = Inr (wd', p')"
      using Cons.prems scan_windows_fail [OF ne False] by simp
    from Cons.IH [OF this] show ?thesis
      using False by simp
  next
    case True
    let ?sd = "new_sliding nm cons i n w"
    have "scan_windows nm c cons i (record_passing wd ?sd, True) (n + 1) ws = Inr (wd', p')"
      using Cons.prems scan_windows_pass [OF ne True] by simp
    from Cons.IH [OF this] show ?thesis
      using True by (simp add: record_passing_def)
  qed
qed

lemma passing_records_iff:
  "sd \<in> set (passing_records nm c cons i n ws) \<longleftrightarrow>
     (\<exists>k < length ws. c < Min (set (ws ! k)) \<and> sd = new_sliding nm cons i (n + int k) (ws ! k))"
proof (induction ws arbitrary: n)
  case Nil
  then show ?case by simp
next
  case (Cons w ws)
  have shift: "(\<exists>k < length (w # ws). P k) \<longleftrightarrow> P 0 \<or> (\<exists>k < length ws. P (Suc k))" for P
    by (auto simp: less_Suc_eq_0_disj)
  show ?case
    unfolding shift using Cons.IH [of "n + 1"]
    by (auto simp: add.assoc simp del: Min_gr_iff)
qed

lemma passing_records_sorted:
  "sorted_wrt (\<lambda>s t. fst (location s) < fst (location t)) (passing_records nm c cons i n ws)"
proof (induction ws arbitrary: n)
  case Nil
  then show ?case by simp
next
  case (Cons w ws)
  have "\<forall>sd \<in> set (passing_records nm c cons i (n + 1) ws). n < fst (location sd)"
  proof
    fix sd
    assume "sd \<in> set (passing_records nm c cons i (n + 1) ws)"
    then obtain k where "sd = new_sliding nm cons i (n + 1 + int k) (ws ! k)"
      using passing_records_iff [of sd nm c cons i "n + 1" ws] by blast
    then show "n < fst (location sd)"
      by (simp add: new_sliding_def)
  qed
  then show ?case
    using Cons.IH [of "n + 1"] by (simp add: new_sliding_def del: Min_gr_iff)
qed

lemma passing_records_sequence:
  assumes "sd \<in> set (passing_records nm c cons i n ws)"
  shows "sequence sd = py_slice cons (fst (location sd)) (snd (location sd))"
  using assms passing_records_iff [of sd nm c cons i n ws] by (auto simp: new_sliding_def)

lemma slide_elements: "w \<in> set (slide win es) \<Longrightarrow> set w \<subseteq> set win \<union> set es"
proof (induction es arbitrary: win)
  case Nil
  then show ?case by simp
next
  case (Cons e es)
  show ?case
  proof (cases "w = win")
    case True
    then show ?thesis by auto
  next
    case False
    then have "w \<in> set (slide (tl win @ [e]) es)"
      using Cons.prems by simp
    then have "set w \<subseteq> set (tl win @ [e]) \<union> set es"
      by (rule Cons.IH)
    moreover have "set (tl win) \<subseteq> set win"
      by (cases win) auto
    ultimately show ?thesis
      by auto
  qed
qed

lemma window_elements:
  assumes "window gs xs i = Inr ws" and "w \<in> set ws"
  shows "set w \<subseteq> set xs"
proof -
  have "ws = [] \<or> ws = slide (take (nat i) xs) (drop (nat i) xs)"
    using assms(1) by (auto simp: window_def Let_def split: if_splits)
  then have "set w \<subseteq> set (take (nat i) xs) \<union> set (drop (nat i) xs)"
    using assms(2) slide_elements by fastforce
  then show ?thesis
    using set_take_subset set_drop_subset by fast
qed

lemma scan_fresh_entry:
  assumes "window gs ident i = Inr ws"
    and "scan_windows nm c cons i (new_windowdata i, False) 0 ws = Inr (wd, p)"
  shows "entry_of gs nm c ident cons i wd \<and> p = (sliding wd \<noteq> [])"
proof -
  have fresh: "sliding (new_windowdata i) = []" "wsize (new_windowdata i) = i"
      "wmax (new_windowdata i) = 0" "wmin (new_windowdata i) = None"
    by (simp_all add: new_windowdata_def)
  have s: "sliding wd = passing_records nm c cons i 0 ws"
    using scan_windows_sliding [OF assms(2)] by (simp only: fresh append_Nil)
  have sz: "wsize wd = i"
    using scan_windows_sliding [OF assms(2)] by (simp only: fresh)
  have p: "p = (sliding wd \<noteq> [])"
    using scan_windows_sliding [OF assms(2)] by (simp only: s simp_thms)
  have ne: "\<forall>w \<in> set ws. w \<noteq> []"
    using assms(2) by (rule scan_windows_nonempty)
  have mx: "wmax wd = Max (insert 0 (mean ` set (sliding wd)))"
    using scan_windows_wmax [OF assms(2)] by (simp only: fresh s)
  have mn: "wmin wd = (if sliding wd = [] then None else Some (mean (last (sliding wd))))"
    using scan_windows_wmin [OF assms(2)] by (simp only: fresh s)
  have "entry_of gs nm c ident cons i wd"
    unfolding entry_of_def
    by (rule exI [of _ ws]) (intro conjI assms(1) ne s sz mx mn)
  then show ?thesis
    using p by (rule conjI)
qed

section \<open>Properties of the scan over the sizes\<close>

lemma scan_sizes_step:
  "scan_sizes gs nm c ident cons (wds, False) (i # sizes) =
     (case window gs ident i of
        Inl e \<Rightarrow> Inl e
      | Inr ws \<Rightarrow>
          (case scan_windows nm c cons i (new_windowdata i, False) 0 ws of
             Inl e \<Rightarrow> Inl e
           | Inr (wd, p) \<Rightarrow> scan_sizes gs nm c ident cons (wds @ [wd], p) sizes))"
  by simp

lemma scan_sizes_skip: "scan_sizes gs nm c ident cons (wds, True) sizes = Inr (wds, True)"
  by (induction sizes) simp_all

lemma scan_sizes_result:
  assumes "scan_sizes gs nm c ident cons (wds, False) sizes = Inr (wds', p')"
  shows "\<exists>new. wds' = wds @ new \<and> length new \<le> length sizes
           \<and> (\<forall>k < length new. entry_of gs nm c ident cons (sizes ! k) (new ! k))
           \<and> (\<forall>k < length new. (sliding (new ! k) \<noteq> []) = (Suc k = length new \<and> p'))
           \<and> (p' \<longrightarrow> new \<noteq> [])
           \<and> (\<not> p' \<longrightarrow> length new = length sizes)"
  using assms
proof (induction sizes arbitrary: wds)
  case Nil
  then show ?case by simp
next
  case (Cons i sizes)
  from Cons.prems obtain ws where ws: "window gs ident i = Inr ws"
    unfolding scan_sizes_step by (cases "window gs ident i") simp_all
  from Cons.prems ws obtain wd p
    where sc: "scan_windows nm c cons i (new_windowdata i, False) 0 ws = Inr (wd, p)"
      and rest: "scan_sizes gs nm c ident cons (wds @ [wd], p) sizes = Inr (wds', p')"
    unfolding scan_sizes_step
    by (cases "scan_windows nm c cons i (new_windowdata i, False) 0 ws") auto
  have e: "entry_of gs nm c ident cons i wd" and p: "p = (sliding wd \<noteq> [])"
    using scan_fresh_entry [OF ws sc] by simp_all
  show ?case
  proof (cases p)
    case True
    then have r: "wds' = wds @ [wd]" "p'"
      using rest by (simp_all add: scan_sizes_skip)
    show ?thesis
    proof (intro exI [of _ "[wd]"] conjI allI impI)
      show "wds' = wds @ [wd]" by (rule r(1))
      show "length [wd] \<le> length (i # sizes)" by simp
      show "entry_of gs nm c ident cons ((i # sizes) ! k) ([wd] ! k)" if "k < length [wd]" for k
        using that e by simp
      show "(sliding ([wd] ! k) \<noteq> []) = (Suc k = length [wd] \<and> p')" if "k < length [wd]" for k
        using that r(2) p True by simp
      show "[wd] \<noteq> []" by simp
      show "length [wd] = length (i # sizes)" if "\<not> p'"
        using that r(2) by simp
    qed
  next
    case False
    then have rest': "scan_sizes gs nm c ident cons (wds @ [wd], False) sizes = Inr (wds', p')"
      using rest by simp
    have empty: "sliding wd = []"
      using p False by simp
    from Cons.IH [OF rest'] obtain new2 where n: "wds' = (wds @ [wd]) @ new2"
        "length new2 \<le> length sizes"
        "\<forall>k < length new2. entry_of gs nm c ident cons (sizes ! k) (new2 ! k)"
        "\<forall>k < length new2. (sliding (new2 ! k) \<noteq> []) = (Suc k = length new2 \<and> p')"
        "p' \<longrightarrow> new2 \<noteq> []" "\<not> p' \<longrightarrow> length new2 = length sizes"
      by blast
    show ?thesis
    proof (intro exI [of _ "wd # new2"] conjI allI impI)
      show "wds' = wds @ wd # new2"
        using n(1) by simp
      show "length (wd # new2) \<le> length (i # sizes)"
        using n(2) by simp
      show "entry_of gs nm c ident cons ((i # sizes) ! k) ((wd # new2) ! k)"
        if "k < length (wd # new2)" for k
        using that e n(3) by (cases k) simp_all
      show "(sliding ((wd # new2) ! k) \<noteq> []) = (Suc k = length (wd # new2) \<and> p')"
        if "k < length (wd # new2)" for k
      proof (cases k)
        case 0
        then show ?thesis
          using empty n(5) by auto
      next
        case (Suc m)
        then show ?thesis
          using that n(4) by simp
      qed
      show "wd # new2 \<noteq> []"
        by simp
      show "length (wd # new2) = length (i # sizes)" if "\<not> p'"
        using that n(6) by simp
    qed
  qed
qed

lemma probefinder_align_result:
  assumes "probefinder_align gs nm self align = Inr m"
  shows "consensus m = fst align \<and> identity_profile (snd align) = Inr (identity m)
         \<and> (\<exists>p. scan_sizes gs nm (cutoff self) (identity m) (fst align) ([], False)
                    (rev [min_size self .. max_size self]) = Inr (windows m, p))"
  using assms
  by (auto simp: probefinder_align_def split: sum.splits)

lemma probefinder_align_entries:
  assumes "probefinder_align gs nm self align = Inr m"
  shows "length (windows m) \<le> length (rev [min_size self .. max_size self])
         \<and> (\<forall>k < length (windows m).
               entry_of gs nm (cutoff self) (identity m) (consensus m)
                 (rev [min_size self .. max_size self] ! k) (windows m ! k))
         \<and> (\<forall>k < length (windows m).
               sliding (windows m ! k) \<noteq> [] \<longrightarrow> Suc k = length (windows m))
         \<and> ((\<forall>k < length (windows m). sliding (windows m ! k) = [])
               \<longrightarrow> length (windows m) = length (rev [min_size self .. max_size self]))"
proof -
  let ?sizes = "rev [min_size self .. max_size self]"
  obtain p where sc: "scan_sizes gs nm (cutoff self) (identity m) (consensus m) ([], False) ?sizes
                        = Inr (windows m, p)"
    using probefinder_align_result [OF assms] by auto
  from scan_sizes_result [OF sc] have r: "length (windows m) \<le> length ?sizes"
      "\<forall>k < length (windows m).
          entry_of gs nm (cutoff self) (identity m) (consensus m) (?sizes ! k) (windows m ! k)"
      "\<forall>k < length (windows m).
          (sliding (windows m ! k) \<noteq> []) = (Suc k = length (windows m) \<and> p)"
      "p \<longrightarrow> windows m \<noteq> []" "\<not> p \<longrightarrow> length (windows m) = length ?sizes"
    by auto
  have "length (windows m) = length ?sizes" if "\<forall>k < length (windows m). sliding (windows m ! k) = []"
  proof (cases p)
    case True
    then have "windows m \<noteq> []"
      using r(4) by simp
    then have "length (windows m) - 1 < length (windows m)"
      by simp
    then have "sliding (windows m ! (length (windows m) - 1)) \<noteq> []"
      using r(3) True by simp
    then show ?thesis
      using that \<open>length (windows m) - 1 < length (windows m)\<close> by blast
  next
    case False
    then show ?thesis
      using r(5) by simp
  qed
  then show ?thesis
    using r(1,2,3) by blast
qed

lemma rev_upto_nth:
  assumes "k < length [a..b]"
  shows "rev [a..b] ! k = b - int k"
proof -
  have len: "length [a..b] = nat (b - a + 1)"
    by simp
  have "rev [a..b] ! k = [a..b] ! (length [a..b] - Suc k)"
    using assms by (rule rev_nth)
  also have "\<dots> = a + int (length [a..b] - Suc k)"
    using assms by (intro nth_upto) (simp add: len)
  also have "\<dots> = b - int k"
    using assms by (simp add: len)
  finally show ?thesis .
qed

lemma entry_of_wsize: "entry_of gs nm c ident cons i wd \<Longrightarrow> wsize wd = i"
  by (auto simp: entry_of_def)

text \<open>
  Claim C4. The entries of \<open>metadata.windows\<close> are those of the sizes \<open>max\<close>, \<open>max - 1\<close>, ...
  in this order; an entry with a passing window is the last entry, so no smaller size has
  an entry and the size with passing windows is the smallest one evaluated; when no entry
  has a passing window, every size from \<open>max\<close> down to \<open>min\<close> has its entry.
\<close>

theorem largest_size_first:
  assumes "probefinder_align gs nm self align = Inr m"
  shows "map wsize (windows m)
           = take (length (windows m)) (rev [min_size self .. max_size self])
         \<and> (\<forall>k < length (windows m). wsize (windows m ! k) = max_size self - int k
               \<and> min_size self \<le> wsize (windows m ! k))
         \<and> (\<forall>k < length (windows m).
               sliding (windows m ! k) \<noteq> [] \<longrightarrow> Suc k = length (windows m))
         \<and> (\<forall>j < length (windows m). \<forall>k < length (windows m).
               sliding (windows m ! k) \<noteq> [] \<longrightarrow> wsize (windows m ! k) \<le> wsize (windows m ! j))
         \<and> ((\<forall>k < length (windows m). sliding (windows m ! k) = [])
               \<longrightarrow> int (length (windows m)) = max 0 (max_size self - min_size self + 1))"
proof -
  let ?sizes = "rev [min_size self .. max_size self]"
  let ?ws = "windows m"
  note e = probefinder_align_entries [OF assms]
  have len: "length ?ws \<le> length ?sizes"
    using e by blast
  have sz: "wsize (?ws ! k) = ?sizes ! k" if "k < length ?ws" for k
    using e that entry_of_wsize by blast
  have nth: "wsize (?ws ! k) = max_size self - int k" if "k < length ?ws" for k
  proof -
    have "k < length [min_size self .. max_size self]"
      using that len by simp
    then show ?thesis
      using sz [OF that] rev_upto_nth by simp
  qed
  have lo: "min_size self \<le> wsize (?ws ! k)" if "k < length ?ws" for k
  proof -
    have "k < nat (max_size self - min_size self + 1)"
      using that len by simp
    then show ?thesis
      using nth [OF that] by linarith
  qed
  have last: "Suc k = length ?ws" if "k < length ?ws" "sliding (?ws ! k) \<noteq> []" for k
    using e that by blast
  have "map wsize ?ws = take (length ?ws) ?sizes"
  proof (rule nth_equalityI)
    show "length (map wsize ?ws) = length (take (length ?ws) ?sizes)"
      using len by simp
  next
    fix k
    assume "k < length (map wsize ?ws)"
    then show "map wsize ?ws ! k = take (length ?ws) ?sizes ! k"
      using sz by simp
  qed
  moreover have "wsize (?ws ! k) \<le> wsize (?ws ! j)"
    if "j < length ?ws" "k < length ?ws" "sliding (?ws ! k) \<noteq> []" for j k
  proof -
    have "j \<le> k"
      using last [OF that(2,3)] that(1) by simp
    then show ?thesis
      using nth [OF that(1)] nth [OF that(2)] by simp
  qed
  moreover have "int (length ?ws) = max 0 (max_size self - min_size self + 1)"
    if "\<forall>k < length ?ws. sliding (?ws ! k) = []"
  proof -
    have "length ?ws = length ?sizes"
      using e that by blast
    then show ?thesis
      by simp
  qed
  ultimately show ?thesis
    using nth lo last by blast
qed

theorem largest_size_first_witness:
  "probefinder_align True sequential_mean \<lparr>min_size = 2, max_size = 3, cutoff = 70\<rparr>
     (''AAAXX'',
      [[CHR ''A'' \<mapsto> 2, CHR ''C'' \<mapsto> 0, CHR ''G'' \<mapsto> 0, CHR ''T'' \<mapsto> 0],
       [CHR ''A'' \<mapsto> 2, CHR ''C'' \<mapsto> 0, CHR ''G'' \<mapsto> 0, CHR ''T'' \<mapsto> 0],
       [CHR ''A'' \<mapsto> 2, CHR ''C'' \<mapsto> 0, CHR ''G'' \<mapsto> 0, CHR ''T'' \<mapsto> 0],
       [CHR ''A'' \<mapsto> 1, CHR ''C'' \<mapsto> 1, CHR ''G'' \<mapsto> 0, CHR ''T'' \<mapsto> 0],
       [CHR ''A'' \<mapsto> 1, CHR ''C'' \<mapsto> 1, CHR ''G'' \<mapsto> 0, CHR ''T'' \<mapsto> 0]])
   = Inr \<lparr>consensus = ''AAAXX'', identity = [100, 100, 100, 50, 50],
          windows = [\<lparr>wsize = 3, wmax = 100, wmin = Some 100,
                      sliding = [\<lparr>location = (0, 3), minimum = 100, mean = 100,
                                  sequence = ''AAA''\<rparr>]\<rparr>]\<rparr>
   \<and> map wsize
        [\<lparr>wsize = 3, wmax = 100, wmin = Some 100,
          sliding = [\<lparr>location = (0, 3), minimum = 100, mean = 100, sequence = ''AAA''\<rparr>]\<rparr>]
      = take 1 (rev [2 .. 3])"
proof -
  have h: "probefinder_align True sequential_mean \<lparr>min_size = 2, max_size = 3, cutoff = 70\<rparr>
     (''AAAXX'',
      [[CHR ''A'' \<mapsto> 2, CHR ''C'' \<mapsto> 0, CHR ''G'' \<mapsto> 0, CHR ''T'' \<mapsto> 0],
       [CHR ''A'' \<mapsto> 2, CHR ''C'' \<mapsto> 0, CHR ''G'' \<mapsto> 0, CHR ''T'' \<mapsto> 0],
       [CHR ''A'' \<mapsto> 2, CHR ''C'' \<mapsto> 0, CHR ''G'' \<mapsto> 0, CHR ''T'' \<mapsto> 0],
       [CHR ''A'' \<mapsto> 1, CHR ''C'' \<mapsto> 1, CHR ''G'' \<mapsto> 0, CHR ''T'' \<mapsto> 0],
       [CHR ''A'' \<mapsto> 1, CHR ''C'' \<mapsto> 1, CHR ''G'' \<mapsto> 0, CHR ''T'' \<mapsto> 0]])
   = Inr \<lparr>consensus = ''AAAXX'', identity = [100, 100, 100, 50, 50],
          windows = [\<lparr>wsize = 3, wmax = 100, wmin = Some 100,
                      sliding = [\<lparr>location = (0, 3), minimum = 100, mean = 100,
                                  sequence = ''AAA''\<rparr>]\<rparr>]\<rparr>"
    by code_simp
  show ?thesis
    using largest_size_first [OF h] h by simp
qed

lemma identity_profile_nonneg:
  assumes "identity_profile pssm = Inr profile" and "v \<in> set profile"
  shows "0 \<le> v"
proof -
  obtain i where i: "i < length profile" and v: "v = profile ! i"
    using assms(2) by (auto simp: in_set_conv_nth)
  have "column_identity (pssm ! i) = Inr (profile ! i)"
    using identity_profile_nth [OF assms(1)] i by simp
  then obtain a c g t
    where "percent (Max {a, c, g, t}) (a + c + g + t + gap_count (pssm ! i)) = Inr (profile ! i)"
    using column_identity_Inr by blast
  then show ?thesis
    using percent_nonneg v by blast
qed

lemma entry_sliding_mem:
  assumes "entry_of gs nm c ident cons i wd"
  shows "\<exists>ws. window gs ident i = Inr ws \<and> (\<forall>w \<in> set ws. w \<noteq> [])
           \<and> (\<forall>sd. sd \<in> set (sliding wd) \<longleftrightarrow>
                 (\<exists>k < length ws. c < Min (set (ws ! k))
                    \<and> sd = new_sliding nm cons i (int k) (ws ! k)))"
proof -
  obtain ws where ws: "window gs ident i = Inr ws" "\<forall>w \<in> set ws. w \<noteq> []"
      and sl: "sliding wd = passing_records nm c cons i 0 ws"
    using assms unfolding entry_of_def by blast
  have "sd \<in> set (sliding wd) \<longleftrightarrow>
               (\<exists>k < length ws. c < Min (set (ws ! k)) \<and> sd = new_sliding nm cons i (int k) (ws ! k))"
    for sd
    unfolding sl passing_records_iff [of sd nm c cons i 0 ws] by (simp only: add_0)
  then show ?thesis
    using ws by (intro exI [of _ ws] conjI) simp_all
qed

lemma new_sliding_fields:
  "location (new_sliding nm cons i n w) = (n, n + i)"
  "minimum (new_sliding nm cons i n w) = Min (set w)"
  "mean (new_sliding nm cons i n w) = rounded_mean nm w"
  "sequence (new_sliding nm cons i n w) = py_slice cons n (n + i)"
  by (simp_all only: new_sliding_def slidingdata.simps)

lemma entry_locations:
  assumes "entry_of gs nm c ident cons i wd"
  shows "\<exists>ws. window gs ident i = Inr ws
           \<and> (\<forall>k < length ws.
                 ((int k, int k + i) \<in> location ` set (sliding wd)) = (c < Min (set (ws ! k))))
           \<and> (\<forall>sd \<in> set (sliding wd).
                 \<exists>k < length ws. location sd = (int k, int k + i)
                   \<and> minimum sd = Min (set (ws ! k)) \<and> mean sd = rounded_mean nm (ws ! k)
                   \<and> c < minimum sd)"
proof -
  from entry_sliding_mem [OF assms] obtain ws where ws: "window gs ident i = Inr ws"
    and mem: "\<And>sd. sd \<in> set (sliding wd) \<longleftrightarrow>
               (\<exists>k < length ws. c < Min (set (ws ! k))
                  \<and> sd = new_sliding nm cons i (int k) (ws ! k))"
    by blast
  have a: "((int k, int k + i) \<in> location ` set (sliding wd)) = (c < Min (set (ws ! k)))"
    if k: "k < length ws" for k
  proof
    assume "(int k, int k + i) \<in> location ` set (sliding wd)"
    then obtain sd where sd: "sd \<in> set (sliding wd)" and l: "location sd = (int k, int k + i)"
      by (metis imageE)
    from sd obtain j where j: "j < length ws" "c < Min (set (ws ! j))"
        "sd = new_sliding nm cons i (int j) (ws ! j)"
      unfolding mem by blast
    have "(int j, int j + i) = (int k, int k + i)"
      using l unfolding j(3) new_sliding_fields .
    then have "j = k"
      by simp
    then show "c < Min (set (ws ! k))"
      using j(2) by (simp only:)
  next
    assume "c < Min (set (ws ! k))"
    then have "new_sliding nm cons i (int k) (ws ! k) \<in> set (sliding wd)"
      unfolding mem using k by blast
    then have "location (new_sliding nm cons i (int k) (ws ! k)) \<in> location ` set (sliding wd)"
      by (rule imageI)
    then show "(int k, int k + i) \<in> location ` set (sliding wd)"
      unfolding new_sliding_fields .
  qed
  have b: "\<exists>k < length ws. location sd = (int k, int k + i)
                   \<and> minimum sd = Min (set (ws ! k)) \<and> mean sd = rounded_mean nm (ws ! k)
                   \<and> c < minimum sd"
    if "sd \<in> set (sliding wd)" for sd
  proof -
    from that obtain j where j: "j < length ws" "c < Min (set (ws ! j))"
        "sd = new_sliding nm cons i (int j) (ws ! j)"
      unfolding mem by blast
    have "location sd = (int j, int j + i) \<and> minimum sd = Min (set (ws ! j))
            \<and> mean sd = rounded_mean nm (ws ! j) \<and> c < minimum sd"
      unfolding j(3) new_sliding_fields using j(2) by (intro conjI refl)
    then show ?thesis
      using j(1) by blast
  qed
  show ?thesis
  proof (intro exI [of _ ws] conjI allI impI ballI)
    show "window gs ident i = Inr ws"
      by (rule ws)
    show "((int k, int k + i) \<in> location ` set (sliding wd)) = (c < Min (set (ws ! k)))"
      if "k < length ws" for k
      using that by (rule a)
    show "\<exists>k < length ws. location sd = (int k, int k + i)
                   \<and> minimum sd = Min (set (ws ! k)) \<and> mean sd = rounded_mean nm (ws ! k)
                   \<and> c < minimum sd"
      if "sd \<in> set (sliding wd)" for sd
      using that by (rule b)
  qed
qed

text \<open>
  Claim C5. In the entry of every size that is evaluated, the window at offset \<open>k\<close> is
  recorded (its location \<open>k : k + size\<close> is among the recorded ones) if and only if its
  minimum is strictly greater than the cutoff; a window whose minimum equals the cutoff
  is not recorded, and every recorded window has a minimum above the cutoff.
\<close>

theorem passing_iff_above_cutoff:
  assumes "probefinder_align gs nm self align = Inr m" and "wd \<in> set (windows m)"
  shows "\<exists>ws. window gs (identity m) (wsize wd) = Inr ws
           \<and> (\<forall>k < length ws.
                 ((int k, int k + wsize wd) \<in> location ` set (sliding wd))
                   = (cutoff self < Min (set (ws ! k))))
           \<and> (\<forall>k < length ws.
                 Min (set (ws ! k)) = cutoff self
                   \<longrightarrow> (int k, int k + wsize wd) \<notin> location ` set (sliding wd))
           \<and> (\<forall>sd \<in> set (sliding wd).
                 \<exists>k < length ws. location sd = (int k, int k + wsize wd)
                   \<and> minimum sd = Min (set (ws ! k)) \<and> cutoff self < minimum sd)"
proof -
  obtain k where k: "k < length (windows m)" and wd: "wd = windows m ! k"
    using assms(2) by (auto simp: in_set_conv_nth)
  let ?i = "rev [min_size self .. max_size self] ! k"
  have e: "entry_of gs nm (cutoff self) (identity m) (consensus m) ?i wd"
    using probefinder_align_entries [OF assms(1)] k wd by blast
  have i: "wsize wd = ?i"
    using e by (rule entry_of_wsize)
  from entry_locations [OF e] obtain ws where ws: "window gs (identity m) ?i = Inr ws"
    and iff: "\<forall>k < length ws.
                 ((int k, int k + ?i) \<in> location ` set (sliding wd))
                   = (cutoff self < Min (set (ws ! k)))"
    and rec: "\<forall>sd \<in> set (sliding wd).
                 \<exists>k < length ws. location sd = (int k, int k + ?i)
                   \<and> minimum sd = Min (set (ws ! k)) \<and> mean sd = rounded_mean nm (ws ! k)
                   \<and> cutoff self < minimum sd"
    by blast
  have "\<forall>k < length ws. Min (set (ws ! k)) = cutoff self
          \<longrightarrow> (int k, int k + ?i) \<notin> location ` set (sliding wd)"
    using iff by auto
  then show ?thesis
    unfolding i using ws iff rec by blast
qed

section \<open>Properties of the choice of the location\<close>

lemma locate_sliding_find:
  assumes "wmin wd = Some lo" and "lo \<le> wmax wd"
  shows "locate_sliding wd (loc, passed) sds
           = Inr (if passed then (loc, True)
                  else (case find (\<lambda>sd. mean sd = wmax wd) sds of
                          None \<Rightarrow> (loc, False)
                        | Some sd \<Rightarrow> (Some (location sd), True)))"
proof (induction sds arbitrary: loc passed)
  case Nil
  then show ?case by simp
next
  case (Cons sd sds)
  show ?case
  proof (cases "mean sd = wmax wd")
    case True
    then show ?thesis
      using assms Cons.IH by (simp add: datastore_def)
  next
    case False
    then show ?thesis
      using Cons.IH by (simp add: datastore_def)
  qed
qed

lemma locate_windows_append:
  "locate_windows loc (xs @ ys)
     = (case locate_windows loc xs of Inl e \<Rightarrow> Inl e | Inr l \<Rightarrow> locate_windows l ys)"
  by (induction xs arbitrary: loc) (simp_all split: sum.splits prod.splits)

lemma locate_windows_empty:
  assumes "\<forall>wd \<in> set wds. sliding wd = []"
  shows "locate_windows loc wds = Inr loc"
  using assms by (induction wds) simp_all

lemma entry_winner:
  assumes "entry_of gs nm c ident cons i wd" and "sliding wd \<noteq> []"
    and "\<forall>v \<in> set ident. 0 \<le> v"
    and "\<forall>w. w \<noteq> [] \<longrightarrow> (\<forall>v \<in> set w. 0 \<le> v) \<longrightarrow> 0 \<le> nm w"
  shows "\<exists>k < length (sliding wd).
           (\<forall>loc. locate_sliding wd (loc, False) (sliding wd)
                    = Inr (Some (location (sliding wd ! k)), True))
           \<and> mean (sliding wd ! k) = wmax wd
           \<and> (\<forall>j < k. mean (sliding wd ! j) \<noteq> wmax wd)
           \<and> (\<forall>j < length (sliding wd). mean (sliding wd ! j) \<le> wmax wd)"
proof -
  let ?M = "mean ` set (sliding wd)"
  from entry_sliding_mem [OF assms(1)] obtain ws where ws: "window gs ident i = Inr ws"
    and wne: "\<forall>w \<in> set ws. w \<noteq> []"
    and mem: "\<And>sd. sd \<in> set (sliding wd) \<longleftrightarrow>
               (\<exists>k < length ws. c < Min (set (ws ! k))
                  \<and> sd = new_sliding nm cons i (int k) (ws ! k))"
    by blast
  have mx: "wmax wd = Max (insert 0 ?M)"
    and mn0: "wmin wd = (if sliding wd = [] then None else Some (mean (last (sliding wd))))"
    using assms(1) unfolding entry_of_def by blast+
  have mn: "wmin wd = Some (mean (last (sliding wd)))"
    using mn0 assms(2) by simp
  have nonneg: "0 \<le> x" if xM: "x \<in> ?M" for x
  proof -
    obtain sd where sd: "sd \<in> set (sliding wd)" and x: "x = mean sd"
      using xM by blast
    from sd obtain k where k: "k < length ws" and "sd = new_sliding nm cons i (int k) (ws ! k)"
      unfolding mem by blast
    then have m: "mean sd = rounded_mean nm (ws ! k)"
      by (simp only: new_sliding_fields)
    have "set (ws ! k) \<subseteq> set ident"
      using ws nth_mem [OF k] by (rule window_elements)
    then have "\<forall>v \<in> set (ws ! k). 0 \<le> v"
      using assms(3) by blast
    moreover have "ws ! k \<noteq> []"
      using wne nth_mem [OF k] by blast
    ultimately have "0 \<le> nm (ws ! k)"
      using assms(4) by blast
    then show ?thesis
      unfolding x m by (rule rounded_mean_nonneg)
  qed
  have fin: "finite ?M" and ne: "?M \<noteq> {}"
    using assms(2) by simp_all
  have "Max (insert 0 ?M) = max 0 (Max ?M)"
    using fin ne by simp
  also have "\<dots> = Max ?M"
    using nonneg Max_in [OF fin ne] by (simp add: max_absorb2)
  finally have mx': "wmax wd = Max ?M"
    using mx by simp
  then have "wmax wd \<in> ?M"
    using Max_in [OF fin ne] by simp
  then obtain sd0 where sd0: "sd0 \<in> set (sliding wd)" "mean sd0 = wmax wd"
    by force
  have le: "mean sd \<le> wmax wd" if "sd \<in> set (sliding wd)" for sd
    unfolding mx' using that fin by (intro Max_ge) simp_all
  have "last (sliding wd) \<in> set (sliding wd)"
    using assms(2) by simp
  then have lo: "mean (last (sliding wd)) \<le> wmax wd"
    by (rule le)
  obtain sd where f: "find (\<lambda>sd. mean sd = wmax wd) (sliding wd) = Some sd"
    using sd0 by (cases "find (\<lambda>sd. mean sd = wmax wd) (sliding wd)") (auto simp: find_None_iff)
  then obtain k where k: "k < length (sliding wd)" "mean (sliding wd ! k) = wmax wd"
      "sd = sliding wd ! k" "\<forall>j < k. mean (sliding wd ! j) \<noteq> wmax wd"
    unfolding find_Some_iff by blast
  have "\<forall>loc. locate_sliding wd (loc, False) (sliding wd)
          = Inr (Some (location (sliding wd ! k)), True)"
    using locate_sliding_find [OF mn lo, of _ False "sliding wd"] f k(3) by simp
  moreover have "\<forall>j < length (sliding wd). mean (sliding wd ! j) \<le> wmax wd"
    using le by simp
  ultimately show ?thesis
    using k by blast
qed

lemma gene_without_passing:
  assumes "\<forall>wd \<in> set (windows m). sliding wd = []"
  shows "locate_windows loc (windows m) = Inr loc"
  using assms by (rule locate_windows_empty)

lemma gene_with_passing:
  assumes "probefinder_align gs nm self align = Inr m"
    and "wd \<in> set (windows m)" and "sliding wd \<noteq> []"
    and "\<forall>w. w \<noteq> [] \<longrightarrow> (\<forall>v \<in> set w. 0 \<le> v) \<longrightarrow> 0 \<le> nm w"
  shows "\<exists>k < length (sliding wd).
           (\<forall>loc. locate_windows loc (windows m) = Inr (Some (location (sliding wd ! k))))
           \<and> mean (sliding wd ! k) = wmax wd
           \<and> (\<forall>j < k. mean (sliding wd ! j) \<noteq> wmax wd)
           \<and> (\<forall>j < length (sliding wd). mean (sliding wd ! j) \<le> wmax wd)"
proof -
  note e = probefinder_align_entries [OF assms(1)]
  obtain n where n: "n < length (windows m)" and wd: "wd = windows m ! n"
    using assms(2) by (auto simp: in_set_conv_nth)
  have last: "Suc n = length (windows m)"
    using e n wd assms(3) by blast
  have ent: "entry_of gs nm (cutoff self) (identity m) (consensus m)
               (rev [min_size self .. max_size self] ! n) wd"
    using e n wd by blast
  have split: "windows m = take n (windows m) @ [wd]"
    using last wd by (metis lessI take_Suc_conv_app_nth take_all order_refl)
  have empty: "\<forall>w \<in> set (take n (windows m)). sliding w = []"
  proof
    fix w
    assume "w \<in> set (take n (windows m))"
    then obtain j where j: "j < n" and w: "w = windows m ! j"
      using n by (auto simp: in_set_conv_nth)
    have "j < length (windows m)" "Suc j \<noteq> length (windows m)"
      using j last by simp_all
    then show "sliding w = []"
      using e w by blast
  qed
  have nonneg: "\<forall>v \<in> set (identity m). 0 \<le> v"
    using probefinder_align_result [OF assms(1)] identity_profile_nonneg by blast
  from entry_winner [OF ent assms(3) nonneg assms(4)] obtain k
    where k: "k < length (sliding wd)"
      "\<forall>loc. locate_sliding wd (loc, False) (sliding wd)
               = Inr (Some (location (sliding wd ! k)), True)"
      "mean (sliding wd ! k) = wmax wd" "\<forall>j < k. mean (sliding wd ! j) \<noteq> wmax wd"
      "\<forall>j < length (sliding wd). mean (sliding wd ! j) \<le> wmax wd"
    by blast
  have "\<forall>loc. locate_windows loc (take n (windows m) @ [wd])
                 = Inr (Some (location (sliding wd ! k)))"
    unfolding locate_windows_append locate_windows_empty [OF empty]
    using k(2) by simp
  then have "\<forall>loc. locate_windows loc (windows m) = Inr (Some (location (sliding wd ! k)))"
    using split by simp
  then show ?thesis
    using k by blast
qed

section \<open>The location of a gene\<close>

lemma scenario_A_gene:
  "probefinder_align True sequential_mean example_settings scenario_A
     = Inr \<lparr>consensus = ''AAAXX'', identity = [100, 100, 100, 50, 50],
            windows = [\<lparr>wsize = 3, wmax = 100, wmin = Some 100,
                        sliding = [\<lparr>location = (0, 3), minimum = 100, mean = 100,
                                    sequence = ''AAA''\<rparr>]\<rparr>]\<rparr>"
  by code_simp

lemma scenario_tie_gene:
  "probefinder_align True sequential_mean example_settings scenario_tie
     = Inr \<lparr>consensus = ''TACG'', identity = [100, 100, 100, 100],
            windows = [\<lparr>wsize = 3, wmax = 100, wmin = Some 100,
                        sliding = [\<lparr>location = (0, 3), minimum = 100, mean = 100,
                                    sequence = ''TAC''\<rparr>,
                                   \<lparr>location = (1, 4), minimum = 100, mean = 100,
                                    sequence = ''ACG''\<rparr>]\<rparr>]\<rparr>"
  by code_simp

lemma scenario_B_gene:
  "probefinder_align True sequential_mean example_settings scenario_B
     = Inr \<lparr>consensus = ''XXGT'', identity = [50, 50, 100, 100],
            windows = [\<lparr>wsize = 3, wmax = 0, wmin = None, sliding = []\<rparr>,
                       \<lparr>wsize = 2, wmax = 100, wmin = Some 100,
                        sliding = [\<lparr>location = (2, 4), minimum = 100, mean = 100,
                                    sequence = ''GT''\<rparr>]\<rparr>]\<rparr>"
  by code_simp

theorem passing_iff_above_cutoff_witness:
  "probefinder_align True sequential_mean example_settings scenario_A
     = Inr \<lparr>consensus = ''AAAXX'', identity = [100, 100, 100, 50, 50],
            windows = [\<lparr>wsize = 3, wmax = 100, wmin = Some 100,
                        sliding = [\<lparr>location = (0, 3), minimum = 100, mean = 100,
                                    sequence = ''AAA''\<rparr>]\<rparr>]\<rparr>
   \<and> window True [100 :: rat, 100, 100, 50, 50] 3
       = Inr [[100, 100, 100], [100, 100, 50], [100, 50, 50]]
   \<and> cutoff example_settings < Min (set [100, 100, 100])
   \<and> \<not> cutoff example_settings < Min (set [100, 100, 50])"
proof -
  let ?wd = "\<lparr>wsize = 3, wmax = 100, wmin = Some 100,
              sliding = [\<lparr>location = (0, 3), minimum = 100, mean = 100,
                          sequence = ''AAA''\<rparr>]\<rparr>"
  let ?m = "\<lparr>consensus = ''AAAXX'', identity = [100, 100, 100, 50, 50], windows = [?wd]\<rparr>"
  have h: "probefinder_align True sequential_mean example_settings scenario_A = Inr ?m"
    by (rule scenario_A_gene)
  have h2: "?wd \<in> set (windows ?m)"
    by simp
  have w: "window True [100 :: rat, 100, 100, 50, 50] 3
             = Inr [[100, 100, 100], [100, 100, 50], [100, 50, 50]]"
    by code_simp
  have c: "cutoff example_settings < Min (set [100, 100, 100])"
      "\<not> cutoff example_settings < Min (set [100, 100, 50])"
    by (simp_all add: example_settings_def)
  show ?thesis
    using passing_iff_above_cutoff [OF h h2] h w c by simp
qed

lemma entry_offsets_increasing:
  assumes "entry_of gs nm c ident cons i wd" and "j < j'" and "j' < length (sliding wd)"
  shows "fst (location (sliding wd ! j)) < fst (location (sliding wd ! j'))"
proof -
  obtain ws where "sliding wd = passing_records nm c cons i 0 ws"
    using assms(1) unfolding entry_of_def by blast
  then have "sorted_wrt (\<lambda>s t. fst (location s) < fst (location t)) (sliding wd)"
    using passing_records_sorted by simp
  then show ?thesis
    using assms(2,3) by (simp add: sorted_wrt_iff_nth_less)
qed

lemma entry_sequence:
  assumes "entry_of gs nm c ident cons i wd" and "sd \<in> set (sliding wd)"
  shows "sequence sd = py_slice cons (fst (location sd)) (snd (location sd))"
proof -
  obtain ws where "sliding wd = passing_records nm c cons i 0 ws"
    using assms(1) unfolding entry_of_def by blast
  then show ?thesis
    using assms(2) passing_records_sequence by simp
qed

lemma gene_entry:
  assumes "probefinder_align gs nm self align = Inr m" and "wd \<in> set (windows m)"
  shows "\<exists>i. entry_of gs nm (cutoff self) (identity m) (consensus m) i wd"
proof -
  obtain n where "n < length (windows m)" and "wd = windows m ! n"
    using assms(2) by (auto simp: in_set_conv_nth)
  then show ?thesis
    using probefinder_align_entries [OF assms(1)] by blast
qed

lemma gene_passing_is_last:
  assumes "probefinder_align gs nm self align = Inr m"
    and "wd \<in> set (windows m)" and "sliding wd \<noteq> []"
  shows "wd = last (windows m)"
proof -
  obtain n where n: "n < length (windows m)" and wd: "wd = windows m ! n"
    using assms(2) by (auto simp: in_set_conv_nth)
  have "Suc n = length (windows m)"
    using probefinder_align_entries [OF assms(1)] n wd assms(3) by blast
  then have "n = length (windows m) - 1" and "windows m \<noteq> []"
    by auto
  then show ?thesis
    unfolding wd by (simp add: last_conv_nth)
qed

text \<open>
  Claim C6. \<open>numpy.mean\<close> gives no negative mean of values that are not negative. In the
  entry with passing windows, which is the last entry and the one of the largest size
  that has any, \<open>probe_location\<close> selects the location of the first window,
  in scan order, whose mean equals \<open>windowdata.max\<close>, the largest mean of the entry.
  The offsets grow along the scan, so among windows with this mean the one with the
  smallest start is chosen; the result does not depend on the location held before, and
  no later window of the gene changes it.
\<close>

theorem leftmost_best_window:
  assumes "probefinder_align gs nm self align = Inr m"
    and "wd \<in> set (windows m)" and "sliding wd \<noteq> []"
    and "\<forall>w. w \<noteq> [] \<longrightarrow> (\<forall>v \<in> set w. 0 \<le> v) \<longrightarrow> 0 \<le> nm w"
  shows "wd = last (windows m)
         \<and> (\<exists>k < length (sliding wd).
               (\<forall>loc. locate_windows loc (windows m) = Inr (Some (location (sliding wd ! k))))
               \<and> mean (sliding wd ! k) = wmax wd
               \<and> (\<forall>j < length (sliding wd). mean (sliding wd ! j) \<le> wmax wd)
               \<and> (\<forall>j < k. mean (sliding wd ! j) \<noteq> wmax wd)
               \<and> (\<forall>j < length (sliding wd). mean (sliding wd ! j) = wmax wd
                     \<longrightarrow> fst (location (sliding wd ! k)) \<le> fst (location (sliding wd ! j))))
         \<and> (\<forall>j' < length (sliding wd). \<forall>j < j'.
               fst (location (sliding wd ! j)) < fst (location (sliding wd ! j')))"
proof -
  obtain i where e: "entry_of gs nm (cutoff self) (identity m) (consensus m) i wd"
    using gene_entry [OF assms(1,2)] by blast
  have incr: "fst (location (sliding wd ! j)) < fst (location (sliding wd ! j'))"
    if "j < j'" "j' < length (sliding wd)" for j j'
    using e that by (rule entry_offsets_increasing)
  from gene_with_passing [OF assms] obtain k where k: "k < length (sliding wd)"
      "\<forall>loc. locate_windows loc (windows m) = Inr (Some (location (sliding wd ! k)))"
      "mean (sliding wd ! k) = wmax wd" "\<forall>j < k. mean (sliding wd ! j) \<noteq> wmax wd"
      "\<forall>j < length (sliding wd). mean (sliding wd ! j) \<le> wmax wd"
    by blast
  have left: "fst (location (sliding wd ! k)) \<le> fst (location (sliding wd ! j))"
    if "j < length (sliding wd)" "mean (sliding wd ! j) = wmax wd" for j
  proof (cases "j = k")
    case True
    then show ?thesis by simp
  next
    case False
    have "\<not> j < k"
      using k(4) that(2) by blast
    then have "k < j"
      using False by simp
    then have "fst (location (sliding wd ! k)) < fst (location (sliding wd ! j))"
      using that(1) by (rule incr)
    then show ?thesis
      by simp
  qed
  have "\<exists>k < length (sliding wd).
               (\<forall>loc. locate_windows loc (windows m) = Inr (Some (location (sliding wd ! k))))
               \<and> mean (sliding wd ! k) = wmax wd
               \<and> (\<forall>j < length (sliding wd). mean (sliding wd ! j) \<le> wmax wd)
               \<and> (\<forall>j < k. mean (sliding wd ! j) \<noteq> wmax wd)
               \<and> (\<forall>j < length (sliding wd). mean (sliding wd ! j) = wmax wd
                     \<longrightarrow> fst (location (sliding wd ! k)) \<le> fst (location (sliding wd ! j)))"
    using k left by blast
  moreover have "wd = last (windows m)"
    using assms(1-3) by (rule gene_passing_is_last)
  ultimately show ?thesis
    using incr by blast
qed

theorem leftmost_best_window_witness:
  "probefinder_align True sequential_mean example_settings scenario_tie
     = Inr \<lparr>consensus = ''TACG'', identity = [100, 100, 100, 100],
            windows = [\<lparr>wsize = 3, wmax = 100, wmin = Some 100,
                        sliding = [\<lparr>location = (0, 3), minimum = 100, mean = 100,
                                    sequence = ''TAC''\<rparr>,
                                   \<lparr>location = (1, 4), minimum = 100, mean = 100,
                                    sequence = ''ACG''\<rparr>]\<rparr>]\<rparr>
   \<and> locate_windows None
        [\<lparr>wsize = 3, wmax = 100, wmin = Some 100,
          sliding = [\<lparr>location = (0, 3), minimum = 100, mean = 100, sequence = ''TAC''\<rparr>,
                     \<lparr>location = (1, 4), minimum = 100, mean = 100, sequence = ''ACG''\<rparr>]\<rparr>]
       = Inr (Some (0, 3))"
proof -
  let ?wd = "\<lparr>wsize = 3, wmax = 100, wmin = Some 100,
              sliding = [\<lparr>location = (0, 3), minimum = 100, mean = 100, sequence = ''TAC''\<rparr>,
                         \<lparr>location = (1, 4), minimum = 100, mean = 100, sequence = ''ACG''\<rparr>]\<rparr>"
  let ?m = "\<lparr>consensus = ''TACG'', identity = [100, 100, 100, 100], windows = [?wd]\<rparr>"
  have h: "probefinder_align True sequential_mean example_settings scenario_tie = Inr ?m"
    by (rule scenario_tie_gene)
  have h2: "?wd \<in> set (windows ?m)" and h3: "sliding ?wd \<noteq> []"
    by simp_all
  have l: "locate_windows None [?wd] = Inr (Some (0, 3))"
    by (simp add: datastore_def)
  show ?thesis
    using leftmost_best_window [OF h h2 h3 sequential_mean_nonneg] h l by simp
qed

text \<open>
  Claim C7. The \<open>sequence\<close> of every recorded window is the slice of the consensus at its
  recorded location, and the location that \<open>probe_location\<close> takes from a gene with a
  passing window is the location of a recorded window of that gene: slicing the consensus
  of the gene at the winning range gives the recorded sequence.
\<close>

theorem winning_sequence_roundtrip:
  assumes "probefinder_align gs nm self align = Inr m"
    and "\<forall>w. w \<noteq> [] \<longrightarrow> (\<forall>v \<in> set w. 0 \<le> v) \<longrightarrow> 0 \<le> nm w"
  shows "consensus m = fst align
         \<and> (\<forall>wd \<in> set (windows m). \<forall>sd \<in> set (sliding wd).
               py_slice (consensus m) (fst (location sd)) (snd (location sd)) = sequence sd)
         \<and> ((\<exists>wd \<in> set (windows m). sliding wd \<noteq> []) \<longrightarrow>
              (\<exists>wd \<in> set (windows m). \<exists>sd \<in> set (sliding wd).
                 (\<forall>loc. locate_windows loc (windows m) = Inr (Some (location sd)))
                 \<and> py_slice (consensus m) (fst (location sd)) (snd (location sd))
                     = sequence sd))"
proof -
  have seq: "py_slice (consensus m) (fst (location sd)) (snd (location sd)) = sequence sd"
    if wdm: "wd \<in> set (windows m)" and sdm: "sd \<in> set (sliding wd)" for wd sd
  proof -
    obtain i where "entry_of gs nm (cutoff self) (identity m) (consensus m) i wd"
      using gene_entry [OF assms(1) wdm] by blast
    then have "sequence sd = py_slice (consensus m) (fst (location sd)) (snd (location sd))"
      using sdm by (rule entry_sequence)
    then show ?thesis
      by simp
  qed
  have win: "\<exists>wd \<in> set (windows m). \<exists>sd \<in> set (sliding wd).
                 (\<forall>loc. locate_windows loc (windows m) = Inr (Some (location sd)))
                 \<and> py_slice (consensus m) (fst (location sd)) (snd (location sd))
                     = sequence sd"
    if "\<exists>wd \<in> set (windows m). sliding wd \<noteq> []"
  proof -
    from that obtain wd where wd: "wd \<in> set (windows m)" "sliding wd \<noteq> []"
      by blast
    from gene_with_passing [OF assms(1) wd assms(2)] obtain k where k: "k < length (sliding wd)"
      "\<forall>loc. locate_windows loc (windows m) = Inr (Some (location (sliding wd ! k)))"
      by blast
    have "sliding wd ! k \<in> set (sliding wd)"
      using k(1) by simp
    then show ?thesis
      using wd(1) k(2) seq by blast
  qed
  have "consensus m = fst align"
    using probefinder_align_result [OF assms(1)] by simp
  then show ?thesis
    using seq win by blast
qed

theorem winning_sequence_roundtrip_witness:
  "probefinder_align True sequential_mean example_settings scenario_B
     = Inr \<lparr>consensus = ''XXGT'', identity = [50, 50, 100, 100],
            windows = [\<lparr>wsize = 3, wmax = 0, wmin = None, sliding = []\<rparr>,
                       \<lparr>wsize = 2, wmax = 100, wmin = Some 100,
                        sliding = [\<lparr>location = (2, 4), minimum = 100, mean = 100,
                                    sequence = ''GT''\<rparr>]\<rparr>]\<rparr>
   \<and> locate_windows None
        [\<lparr>wsize = 3, wmax = 0, wmin = None, sliding = []\<rparr>,
         \<lparr>wsize = 2, wmax = 100, wmin = Some 100,
          sliding = [\<lparr>location = (2, 4), minimum = 100, mean = 100, sequence = ''GT''\<rparr>]\<rparr>]
       = Inr (Some (2, 4))
   \<and> py_slice ''XXGT'' 2 4 = ''GT''"
proof -
  have h: "probefinder_align True sequential_mean example_settings scenario_B
     = Inr \<lparr>consensus = ''XXGT'', identity = [50, 50, 100, 100],
            windows = [\<lparr>wsize = 3, wmax = 0, wmin = None, sliding = []\<rparr>,
                       \<lparr>wsize = 2, wmax = 100, wmin = Some 100,
                        sliding = [\<lparr>location = (2, 4), minimum = 100, mean = 100,
                                    sequence = ''GT''\<rparr>]\<rparr>]\<rparr>"
    by (rule scenario_B_gene)
  have s: "py_slice ''XXGT'' 2 4 = ''GT''"
    by (simp add: py_slice_def slice_index_def)
  show ?thesis
    using winning_sequence_roundtrip [OF h sequential_mean_nonneg] h s
    by (simp add: datastore_def)
qed

end
